theory Spec2Isabelle
  imports Complex_Main "HOL-Library.Multiset" "HOL-Library.Log_Nat"
    "HOL-Library.Product_Lexorder"
begin

section \<open>Domain model (models.py)\<close>

datatype Direction = UP | DOWN | IDLE

text \<open>\<open>Direction.opposite\<close>.\<close>

definition opposite :: "Direction \<Rightarrow> Direction" where
  "opposite d = (if d = UP then DOWN else if d = DOWN then UP else IDLE)"

datatype DoorState = OPEN | CLOSED | OPENING | CLOSING

datatype error = ValueError | OverflowError

text \<open>
  A \<open>Request\<close> is a frozen dataclass. Its \<open>id\<close> (a UUID) is the field \<open>req_id\<close>;
  Python compares and hashes requests by that field alone. The \<open>timestamp\<close> field is
  never read by the elevator or the strategies and is left out.
\<close>

record Request =
  pickup_floor :: int
  destination_floor :: int
  req_id :: nat
  passengers :: int

text \<open>\<open>Request.__post_init__\<close>: the two checks, in the source's order.\<close>

definition new_request :: "int \<Rightarrow> int \<Rightarrow> nat \<Rightarrow> int \<Rightarrow> error + Request" where
  "new_request pickup destination uid n =
     (if pickup = destination then Inl ValueError
      else if n < 1 then Inl ValueError
      else Inr \<lparr>pickup_floor = pickup, destination_floor = destination,
                req_id = uid, passengers = n\<rparr>)"

text \<open>The property \<open>Request.direction\<close>.\<close>

definition request_direction :: "Request \<Rightarrow> Direction" where
  "request_direction r =
     (if destination_floor r > pickup_floor r then UP else DOWN)"

text \<open>\<open>ElevatorState\<close>, the snapshot handed to the dispatch strategies.\<close>

record ElevatorState =
  s_elevator_id :: int
  s_current_floor :: int
  s_direction :: Direction
  s_door_state :: DoorState
  s_current_load :: int
  s_capacity :: int
  pending_stops_up :: "int set"
  pending_stops_down :: "int set"

text \<open>
  \<open>is_idle\<close>: \<open>len(x) == 0\<close> on a Python set says that the set is empty.
\<close>

definition is_idle :: "ElevatorState \<Rightarrow> bool" where
  "is_idle s \<longleftrightarrow>
     s_direction s = IDLE \<and> pending_stops_up s = {} \<and> pending_stops_down s = {}"

definition total_pending_stops :: "ElevatorState \<Rightarrow> nat" where
  "total_pending_stops s = card (pending_stops_up s) + card (pending_stops_down s)"

definition distance_to :: "ElevatorState \<Rightarrow> int \<Rightarrow> int" where
  "distance_to s fl = \<bar>s_current_floor s - fl\<bar>"

section \<open>The elevator (elevator.py)\<close>

text \<open>
  The mutable fields of \<open>Elevator\<close>. The two \<open>SortedSet\<close>s of stops are sets of floors
  (the code only tests membership, emptiness and size, and filters them); the dict
  \<open>_active_requests\<close> is a map from floors to the requests stored there. A Python
  \<open>set\<close> of requests is kept as a list without two entries of the same id; the list
  order is the order in which the \<open>for\<close> loop visits the set. The lock and the
  observers do not influence the state: observer exceptions are caught and discarded.
\<close>

record Elevator =
  elevator_id :: int
  min_floor :: int
  max_floor :: int
  capacity :: int
  current_floor :: int
  direction :: Direction
  door_state :: DoorState
  current_load :: int
  up_stops :: "int set"
  down_stops :: "int set"
  active_requests :: "int \<rightharpoonup> Request list"

text \<open>\<open>Elevator.__init__\<close>: every \<open>raise ValueError\<close> is an \<open>Inl\<close>.\<close>

definition new_elevator :: "int \<Rightarrow> int \<Rightarrow> int \<Rightarrow> int \<Rightarrow> int \<Rightarrow> error + Elevator" where
  "new_elevator eid lo hi cap start =
     (if lo > hi then Inl ValueError
      else if \<not> (lo \<le> start \<and> start \<le> hi) then Inl ValueError
      else if cap < 1 then Inl ValueError
      else Inr \<lparr>elevator_id = eid, min_floor = lo, max_floor = hi, capacity = cap,
                current_floor = start, direction = IDLE, door_state = CLOSED,
                current_load = 0, up_stops = {}, down_stops = {},
                active_requests = Map.empty\<rparr>)"

definition get_state :: "Elevator \<Rightarrow> ElevatorState" where
  "get_state e =
     \<lparr>s_elevator_id = elevator_id e, s_current_floor = current_floor e,
      s_direction = direction e, s_door_state = door_state e,
      s_current_load = current_load e, s_capacity = capacity e,
      pending_stops_up = up_stops e, pending_stops_down = down_stops e\<rparr>"

definition can_accept_request :: "Elevator \<Rightarrow> Request \<Rightarrow> bool" where
  "can_accept_request e r =
     (if \<not> (min_floor e \<le> pickup_floor r \<and> pickup_floor r \<le> max_floor e) then False
      else if \<not> (min_floor e \<le> destination_floor r \<and> destination_floor r \<le> max_floor e)
        then False
      else if passengers r > capacity e then False
      else True)"

text \<open>
  \<open>set.add\<close> and \<open>set.discard\<close> on a set of requests: membership is decided by
  \<open>Request.__eq__\<close>, that is by the id.
\<close>

definition set_add :: "Request \<Rightarrow> Request list \<Rightarrow> Request list" where
  "set_add r rs = (if \<exists>x \<in> set rs. req_id x = req_id r then rs else rs @ [r])"

definition set_discard :: "Request \<Rightarrow> Request list \<Rightarrow> Request list" where
  "set_discard r rs = filter (\<lambda>x. req_id x \<noteq> req_id r) rs"

text \<open>
  \<open>if floor not in d: d[floor] = set()\<close> followed by \<open>d[floor].add(request)\<close>.
\<close>

definition track :: "int \<Rightarrow> Request \<Rightarrow> (int \<rightharpoonup> Request list) \<Rightarrow> (int \<rightharpoonup> Request list)" where
  "track fl r m =
     (case m fl of
        None \<Rightarrow> m(fl \<mapsto> set_add r [])
      | Some rs \<Rightarrow> m(fl \<mapsto> set_add r rs))"

text \<open>\<open>Elevator.add_request\<close> returns the boolean and the elevator after the call.\<close>

definition add_request :: "Elevator \<Rightarrow> Request \<Rightarrow> bool \<times> Elevator" where
  "add_request e r =
     (if \<not> can_accept_request e r then (False, e)
      else
        let pickup = pickup_floor r;
            destination = destination_floor r;
            rdir = request_direction r;
            e1 = e\<lparr>active_requests := track pickup r (active_requests e)\<rparr>;
            e2 = e1\<lparr>active_requests := track destination r (active_requests e1)\<rparr>;
            e3 = (if rdir = UP
                  then e2\<lparr>up_stops := insert destination (insert pickup (up_stops e2))\<rparr>
                  else e2\<lparr>down_stops := insert destination (insert pickup (down_stops e2))\<rparr>);
            e4 = (if direction e3 = IDLE
                  then (if pickup > current_floor e3 then e3\<lparr>direction := UP\<rparr>
                        else if pickup < current_floor e3 then e3\<lparr>direction := DOWN\<rparr>
                        else e3\<lparr>direction := rdir\<rparr>)
                  else e3)
        in (True, e4))"

definition is_current_floor_a_stop :: "Elevator \<Rightarrow> bool" where
  "is_current_floor_a_stop e =
     (let fl = current_floor e in
      if direction e = UP then fl \<in> up_stops e
      else if direction e = DOWN then fl \<in> down_stops e
      else fl \<in> up_stops e \<or> fl \<in> down_stops e)"

text \<open>
  The first loop of \<open>_process_current_floor\<close>: it walks the requests stored at the
  floor, carrying the load and the list \<open>completed\<close>.
\<close>

fun board_alight :: "int \<Rightarrow> int \<Rightarrow> Request list \<Rightarrow> int \<times> Request list \<Rightarrow> int \<times> Request list" where
  "board_alight fl cap [] (load, completed) = (load, completed)"
| "board_alight fl cap (r # rs) (load, completed) =
     (if destination_floor r = fl
      then board_alight fl cap rs (max 0 (load - passengers r), completed @ [r])
      else if pickup_floor r = fl
      then (if load + passengers r \<le> cap
            then board_alight fl cap rs (load + passengers r, completed)
            else board_alight fl cap rs (load, completed))
      else board_alight fl cap rs (load, completed))"

text \<open>
  The second loop: every completed request is discarded from the set of the floor and,
  when its pickup floor is a key of the dict, from the set stored there.
\<close>

fun clean_up :: "int \<Rightarrow> Request list \<Rightarrow> (int \<rightharpoonup> Request list) \<Rightarrow> (int \<rightharpoonup> Request list)" where
  "clean_up fl [] m = m"
| "clean_up fl (r # rs) m =
     (let m1 = (case m fl of
                  None \<Rightarrow> m
                | Some xs \<Rightarrow> m(fl \<mapsto> set_discard r xs));
          m2 = (case m1 (pickup_floor r) of
                  None \<Rightarrow> m1
                | Some xs \<Rightarrow> m1(pickup_floor r \<mapsto> set_discard r xs))
      in clean_up fl rs m2)"

definition process_current_floor :: "Elevator \<Rightarrow> Elevator" where
  "process_current_floor e =
     (let fl = current_floor e;
          e1 = e\<lparr>door_state := OPEN\<rparr>;
          e2 = (if direction e1 = UP \<and> fl \<in> up_stops e1
                then e1\<lparr>up_stops := up_stops e1 - {fl}\<rparr>
                else if direction e1 = DOWN \<and> fl \<in> down_stops e1
                then e1\<lparr>down_stops := down_stops e1 - {fl}\<rparr>
                else e1);
          e3 = (case active_requests e2 fl of
                  None \<Rightarrow> e2
                | Some rs \<Rightarrow>
                    let (load, completed) =
                          board_alight fl (capacity e2) rs (current_load e2, []);
                        m = clean_up fl completed (active_requests e2);
                        m' = (if m fl = Some [] then m(fl := None) else m)
                    in e2\<lparr>current_load := load, active_requests := m'\<rparr>)
      in e3\<lparr>door_state := CLOSED\<rparr>)"

definition move :: "Elevator \<Rightarrow> Elevator" where
  "move e =
     (if direction e = UP
      then (if current_floor e < max_floor e
            then e\<lparr>current_floor := current_floor e + 1\<rparr> else e)
      else if direction e = DOWN
      then (if current_floor e > min_floor e
            then e\<lparr>current_floor := current_floor e - 1\<rparr> else e)
      else e)"

definition has_pending_stops :: "Elevator \<Rightarrow> bool" where
  "has_pending_stops e \<longleftrightarrow> up_stops e \<noteq> {} \<or> down_stops e \<noteq> {}"

definition update_direction :: "Elevator \<Rightarrow> Elevator" where
  "update_direction e =
     (if direction e = UP
      then (let higher_stops = {f \<in> up_stops e. f > current_floor e} in
            if higher_stops \<noteq> {} then e
            else if down_stops e \<noteq> {} then e\<lparr>direction := DOWN\<rparr>
            else if up_stops e \<noteq> {} then e\<lparr>direction := DOWN\<rparr>
            else e\<lparr>direction := IDLE\<rparr>)
      else if direction e = DOWN
      then (let lower_stops = {f \<in> down_stops e. f < current_floor e} in
            if lower_stops \<noteq> {} then e
            else if up_stops e \<noteq> {} then e\<lparr>direction := UP\<rparr>
            else if down_stops e \<noteq> {} then e\<lparr>direction := UP\<rparr>
            else e\<lparr>direction := IDLE\<rparr>)
      else e)"

text \<open>
  \<open>step\<close> contains the statement
  \<open>if self._is_current_floor_a_stop(): self._process_current_floor()\<close> twice.
\<close>

definition arrive :: "Elevator \<Rightarrow> Elevator" where
  "arrive e = (if is_current_floor_a_stop e then process_current_floor e else e)"

text \<open>
  \<open>Elevator.step\<close> up to, but not including, the final \<open>_update_direction\<close>:
  arrival processing at the current floor, then one move and the arrival processing at
  the new floor.
\<close>

definition advance :: "Elevator \<Rightarrow> Elevator" where
  "advance e =
     (let e1 = arrive e in
      if has_pending_stops e1 then arrive (move e1) else e1)"

definition step :: "Elevator \<Rightarrow> Elevator" where
  "step e = (if direction e = IDLE then e else update_direction (advance e))"

text \<open>
  \<open>Elevator(elevator_id=eid, capacity=cap, start_floor=start)\<close> with the default floor
  range 0 to 10, as the tests build their cars, and a request with the given id.
\<close>

definition car :: "int \<Rightarrow> int \<Rightarrow> int \<Rightarrow> Elevator" where
  "car eid cap start =
     \<lparr>elevator_id = eid, min_floor = 0, max_floor = 10, capacity = cap,
      current_floor = start, direction = IDLE, door_state = CLOSED,
      current_load = 0, up_stops = {}, down_stops = {},
      active_requests = Map.empty\<rparr>"

definition req :: "nat \<Rightarrow> int \<Rightarrow> int \<Rightarrow> int \<Rightarrow> Request" where
  "req uid pickup destination n =
     \<lparr>pickup_floor = pickup, destination_floor = destination, req_id = uid,
      passengers = n\<rparr>"

text \<open>
  A car of capacity 2 at floor 0 that has accepted a request for two passengers from
  floor 0 to floor 5 and then a request for one passenger from floor 1 to floor 3.
\<close>

definition overfull :: Elevator where
  "overfull = snd (add_request (snd (add_request (car 0 2 0) (req 3 0 5 2))) (req 4 1 3 1))"

text \<open>
  A car at floor 0 that has accepted two different requests with one id: a request from
  floor 2 to floor 5, then a request from floor 3 to floor 5.
\<close>

definition shared_id :: Elevator where
  "shared_id = snd (add_request (snd (add_request (car 0 8 0) (req 7 2 5 1))) (req 7 3 5 1))"

section \<open>Python floats\<close>

text \<open>
  A Python \<open>float\<close> is an IEEE 754 binary64 number: a rational, an infinity or a NaN.
  The two zeros are not told apart: no operation below depends on the sign of a zero.
\<close>

datatype pyfloat = Finite rat | PosInf | NegInf | NaN

text \<open>
  \<open>floor_log2 x\<close> is, for positive \<open>x\<close>, the exponent \<open>k\<close> with
  \<open>2 ^ k \<le> x < 2 ^ (k + 1)\<close>, found from the bit lengths of numerator and denominator.
\<close>

definition pow2 :: "int \<Rightarrow> rat" where
  "pow2 k = (if 0 \<le> k then 2 ^ nat k else 1 / 2 ^ nat (- k))"

definition floor_log2 :: "rat \<Rightarrow> int" where
  "floor_log2 x =
     (case quotient_of x of (a, b) \<Rightarrow>
        let d = bitlen a - bitlen b in if pow2 d \<le> x then d else d - 1)"

text \<open>
  Rounding a rational to the nearest binary64 number, ties to the even mantissa: 53
  bits of mantissa, the exponent not below \<open>-1022\<close> (subnormal numbers), and an
  infinity when the rounded magnitude reaches \<open>2 ^ 1024\<close>.
\<close>

definition round_half_even :: "rat \<Rightarrow> int" where
  "round_half_even q =
     (let f = \<lfloor>q\<rfloor>; r = q - of_int f
      in if r < 1 / 2 then f else if 1 / 2 < r then f + 1
         else if even f then f else f + 1)"

definition rnd :: "rat \<Rightarrow> pyfloat" where
  "rnd x =
     (if x = 0 then Finite 0
      else
        let e = max (floor_log2 \<bar>x\<bar>) (- 1022);
            ulp = pow2 (e - 52);
            y = of_int (round_half_even (x / ulp)) * ulp
        in if pow2 1024 \<le> \<bar>y\<bar> then (if 0 < x then PosInf else NegInf) else Finite y)"

text \<open>The float operations \<open>*\<close>, \<open>+\<close> and \<open><\<close>.\<close>

fun fmul :: "pyfloat \<Rightarrow> pyfloat \<Rightarrow> pyfloat" where
  "fmul NaN y = NaN"
| "fmul x NaN = NaN"
| "fmul (Finite a) (Finite b) = rnd (a * b)"
| "fmul (Finite a) PosInf = (if a = 0 then NaN else if 0 < a then PosInf else NegInf)"
| "fmul (Finite a) NegInf = (if a = 0 then NaN else if 0 < a then NegInf else PosInf)"
| "fmul PosInf (Finite b) = (if b = 0 then NaN else if 0 < b then PosInf else NegInf)"
| "fmul NegInf (Finite b) = (if b = 0 then NaN else if 0 < b then NegInf else PosInf)"
| "fmul PosInf PosInf = PosInf"
| "fmul PosInf NegInf = NegInf"
| "fmul NegInf PosInf = NegInf"
| "fmul NegInf NegInf = PosInf"

fun fadd :: "pyfloat \<Rightarrow> pyfloat \<Rightarrow> pyfloat" where
  "fadd NaN y = NaN"
| "fadd x NaN = NaN"
| "fadd (Finite a) (Finite b) = rnd (a + b)"
| "fadd (Finite a) PosInf = PosInf"
| "fadd (Finite a) NegInf = NegInf"
| "fadd PosInf (Finite b) = PosInf"
| "fadd NegInf (Finite b) = NegInf"
| "fadd PosInf PosInf = PosInf"
| "fadd PosInf NegInf = NaN"
| "fadd NegInf PosInf = NaN"
| "fadd NegInf NegInf = NegInf"

fun fless :: "pyfloat \<Rightarrow> pyfloat \<Rightarrow> bool" where
  "fless NaN y = False"
| "fless x NaN = False"
| "fless (Finite a) (Finite b) = (a < b)"
| "fless (Finite a) PosInf = True"
| "fless (Finite a) NegInf = False"
| "fless PosInf y = False"
| "fless NegInf (Finite b) = True"
| "fless NegInf PosInf = True"
| "fless NegInf NegInf = False"

text \<open>
  \<open>float(n)\<close> and the implicit conversion in \<open>n * 0.5\<close>: the integer is rounded to
  the nearest float, and Python raises \<open>OverflowError\<close> when it is too large. A float
  literal is the float nearest to the decimal. The comparison \<open>n >= x\<close> of an integer
  with a float compares the exact values.
\<close>

definition float_of_int :: "int \<Rightarrow> error + pyfloat" where
  "float_of_int n =
     (case rnd (of_int n) of Finite y \<Rightarrow> Inr (Finite y) | _ \<Rightarrow> Inl OverflowError)"

definition lit :: "rat \<Rightarrow> pyfloat" where
  "lit q = rnd q"

fun int_ge_float :: "int \<Rightarrow> pyfloat \<Rightarrow> bool" where
  "int_ge_float n (Finite y) = (y \<le> of_int n)"
| "int_ge_float n PosInf = False"
| "int_ge_float n NegInf = True"
| "int_ge_float n NaN = False"

text \<open>A float that is zero, a positive number or positive infinity.\<close>

fun nonneg :: "pyfloat \<Rightarrow> bool" where
  "nonneg (Finite y) = (0 \<le> y)"
| "nonneg PosInf = True"
| "nonneg NegInf = False"
| "nonneg NaN = False"

section \<open>Dispatch strategies (strategies.py)\<close>

definition get_compatible_elevators :: "Request \<Rightarrow> Elevator list \<Rightarrow> Elevator list" where
  "get_compatible_elevators r es = filter (\<lambda>e. can_accept_request e r) es"

text \<open>
  \<open>LookDispatchStrategy._calculate_score\<close>, in float arithmetic. The conversions
  \<open>float(distance)\<close>, \<open>total_pending_stops * 0.5\<close>, \<open>total_pending_stops * 0.3\<close> and
  \<open>capacity * 0.8\<close> of an integer can raise.
\<close>

definition calculate_score :: "ElevatorState \<Rightarrow> int \<Rightarrow> Direction \<Rightarrow> error + pyfloat" where
  "calculate_score s pickup rdir =
     (let distance = distance_to s pickup in
      (case float_of_int distance of
         Inl err \<Rightarrow> Inl err
       | Inr score \<Rightarrow>
           (if is_idle s
            then (case float_of_int (int (total_pending_stops s)) of
                    Inl err \<Rightarrow> Inl err
                  | Inr n \<Rightarrow> Inr (fadd score (fmul n (lit (1 / 2)))))
            else
              (let current = s_current_floor s;
                   d = s_direction s;
                   score1 =
                     (if d = UP
                      then (if pickup \<ge> current
                            then (if rdir = UP then fmul score (lit (1 / 2))
                                  else fmul score (lit (3 / 2)))
                            else fmul score (lit 2))
                      else if d = DOWN
                      then (if pickup \<le> current
                            then (if rdir = DOWN then fmul score (lit (1 / 2))
                                  else fmul score (lit (3 / 2)))
                            else fmul score (lit 2))
                      else score)
               in (case float_of_int (int (total_pending_stops s)) of
                     Inl err \<Rightarrow> Inl err
                   | Inr n \<Rightarrow>
                       (let score2 = fadd score1 (fmul n (lit (3 / 10))) in
                        (case float_of_int (s_capacity s) of
                           Inl err \<Rightarrow> Inl err
                         | Inr cap \<Rightarrow>
                             (if int_ge_float (s_current_load s) (fmul cap (lit (4 / 5)))
                              then Inr (fmul score2 (lit (3 / 2)))
                              else Inr score2))))))))"

text \<open>
  The loop of \<open>LookDispatchStrategy.select_elevator\<close> over the compatible cars, with
  the variables \<open>best_elevator\<close> and \<open>best_score\<close>, which start as \<open>None\<close> and
  \<open>float("inf")\<close>. An exception raised by \<open>_calculate_score\<close> leaves the method.
\<close>

fun look_loop :: "int \<Rightarrow> Direction \<Rightarrow> Elevator list \<Rightarrow> Elevator option \<times> pyfloat
    \<Rightarrow> error + Elevator option \<times> pyfloat" where
  "look_loop pickup rdir [] best = Inr best"
| "look_loop pickup rdir (e # es) (best_elevator, best_score) =
     (case calculate_score (get_state e) pickup rdir of
        Inl err \<Rightarrow> Inl err
      | Inr score \<Rightarrow>
          (if fless score best_score
           then look_loop pickup rdir es (Some e, score)
           else look_loop pickup rdir es (best_elevator, best_score)))"

definition look_select_elevator :: "Request \<Rightarrow> Elevator list \<Rightarrow> error + Elevator option" where
  "look_select_elevator r es =
     (let compatible = get_compatible_elevators r es in
      if compatible = [] then Inr None
      else (case look_loop (pickup_floor r) (request_direction r) compatible (None, PosInf) of
              Inl err \<Rightarrow> Inl err
            | Inr (best_elevator, best_score) \<Rightarrow> Inr best_elevator))"

text \<open>
  \<open>FCFSDispatchStrategy\<close>: the only state is \<open>_next_index\<close>. The \<open>for\<close> loop over
  \<open>range(n)\<close> is the recursion on the number of rounds left; it yields the elevator
  found, if any, and the index after the loop.
\<close>

fun rotation :: "nat \<Rightarrow> Elevator list \<Rightarrow> Elevator list \<Rightarrow> nat \<Rightarrow> Elevator option \<times> nat" where
  "rotation 0 es compatible next_index = (None, next_index)"
| "rotation (Suc k) es compatible next_index =
     (let n = length es;
          idx = next_index mod n;
          next_index' = (next_index + 1) mod n
      in if es ! idx \<in> set compatible then (Some (es ! idx), next_index')
         else rotation k es compatible next_index')"

definition fcfs_select_elevator :: "nat \<Rightarrow> Request \<Rightarrow> Elevator list \<Rightarrow> Elevator option \<times> nat" where
  "fcfs_select_elevator next_index r es =
     (let compatible = get_compatible_elevators r es in
      case compatible of
        [] \<Rightarrow> (None, next_index)
      | c # cs \<Rightarrow>
          (case rotation (length es) es compatible next_index of
             (Some e, next_index') \<Rightarrow> (Some e, next_index')
           | (None, next_index') \<Rightarrow> (Some c, next_index')))"

text \<open>Successive calls on one strategy instance, each with the index the last one left.\<close>

fun fcfs_assign :: "nat \<Rightarrow> Request list \<Rightarrow> Elevator list \<Rightarrow> Elevator option list" where
  "fcfs_assign next_index [] es = []"
| "fcfs_assign next_index (r # rs) es =
     (case fcfs_select_elevator next_index r es of
        (sel, next_index') \<Rightarrow> sel # fcfs_assign next_index' rs es)"

section \<open>The builder (builder.py)\<close>

text \<open>
  The fields of \<open>ElevatorSystemBuilder\<close> that \<open>with_elevators\<close> reads or writes; the
  strategy, the step interval and the observers are not involved.
\<close>

record ElevatorSystemBuilder =
  b_min_floor :: int
  b_max_floor :: int
  num_elevators :: int
  b_capacity :: int
  start_floors :: "int list option"

definition new_builder :: ElevatorSystemBuilder where
  "new_builder = \<lparr>b_min_floor = 0, b_max_floor = 10, num_elevators = 1, b_capacity = 8,
                  start_floors = None\<rparr>"

text \<open>
  \<open>with_elevators\<close>. The test \<open>start_floors and len(start_floors) != count\<close> is Python
  truthiness: \<open>None\<close> and the empty list both skip the length check.
\<close>

definition with_elevators ::
    "ElevatorSystemBuilder \<Rightarrow> int \<Rightarrow> int \<Rightarrow> int list option \<Rightarrow> error + ElevatorSystemBuilder" where
  "with_elevators b cnt cap sf =
     (if cnt < 1 then Inl ValueError
      else if cap < 1 then Inl ValueError
      else if (case sf of None \<Rightarrow> False | Some [] \<Rightarrow> False
               | Some (x # xs) \<Rightarrow> int (length (x # xs)) \<noteq> cnt)
      then Inl ValueError
      else Inr (b\<lparr>num_elevators := cnt, b_capacity := cap, start_floors := sf\<rparr>))"

section \<open>Reachable elevator states\<close>

text \<open>
  The order in which Python iterates over a \<open>set\<close> is not fixed by the program, so
  the lists of the floor map may be permuted at any time.
\<close>

definition same_requests :: "(int \<rightharpoonup> Request list) \<Rightarrow> (int \<rightharpoonup> Request list) \<Rightarrow> bool" where
  "same_requests m m' \<longleftrightarrow> (\<forall>fl. rel_option (\<lambda>xs ys. mset xs = mset ys) (m fl) (m' fl))"

text \<open>
  States reachable from construction by \<open>add_request\<close> and \<open>step\<close>. A request handed
  to \<open>add_request\<close> is one that \<open>Request\<close>'s constructor has let through.
\<close>

inductive reachable :: "Elevator \<Rightarrow> bool" where
  construct: "new_elevator eid lo hi cap start = Inr e \<Longrightarrow> reachable e"
| request: "reachable e \<Longrightarrow> new_request p d uid n = Inr r
      \<Longrightarrow> reachable (snd (add_request e r))"
| tick: "reachable e \<Longrightarrow> reachable (step e)"
| iterate: "reachable e \<Longrightarrow> same_requests (active_requests e) m
      \<Longrightarrow> reachable (e\<lparr>active_requests := m\<rparr>)"

text \<open>
  The requests stored in the floor map, and the condition \<open>id_fresh\<close> that a request
  shares its id with no different request that the car stores. \<open>Request\<close> draws the id
  with \<open>uuid4\<close> by default, but the id is a field that a caller can set, so this is a
  condition on the callers and not a property of the code. \<open>reachable_uid\<close> holds of the
  states that are reached when every request handed to \<open>add_request\<close> meets the
  condition; they are some of the reachable states. On them Python's equality of
  requests, which compares ids, is the equality of the records.
\<close>

definition stored :: "Elevator \<Rightarrow> Request \<Rightarrow> bool" where
  "stored e r \<longleftrightarrow> (\<exists>fl rs. active_requests e fl = Some rs \<and> r \<in> set rs)"

definition id_fresh :: "Elevator \<Rightarrow> Request \<Rightarrow> bool" where
  "id_fresh e r \<longleftrightarrow> (\<forall>x. stored e x \<and> req_id x = req_id r \<longrightarrow> x = r)"

inductive reachable_uid :: "Elevator \<Rightarrow> bool" where
  construct_uid: "new_elevator eid lo hi cap start = Inr e \<Longrightarrow> reachable_uid e"
| request_uid: "reachable_uid e \<Longrightarrow> new_request p d uid n = Inr r \<Longrightarrow> id_fresh e r
      \<Longrightarrow> reachable_uid (snd (add_request e r))"
| tick_uid: "reachable_uid e \<Longrightarrow> reachable_uid (step e)"
| iterate_uid: "reachable_uid e \<Longrightarrow> same_requests (active_requests e) m
      \<Longrightarrow> reachable_uid (e\<lparr>active_requests := m\<rparr>)"

text \<open>The stop set that belongs to a travel direction.\<close>

definition stops_of :: "Direction \<Rightarrow> Elevator \<Rightarrow> int set" where
  "stops_of d e = (if d = UP then up_stops e else down_stops e)"

section \<open>Invariants of the reachable states\<close>

text \<open>The request \<open>r\<close> is in the set stored under floor \<open>fl\<close>.\<close>

definition held :: "Elevator \<Rightarrow> int \<Rightarrow> Request \<Rightarrow> bool" where
  "held e fl r \<longleftrightarrow> (\<exists>rs. active_requests e fl = Some rs \<and> r \<in> set rs)"

text \<open>
  The load stays between zero and the capacity, and every stored request carries at
  least one passenger.
\<close>

definition load_ok :: "Elevator \<Rightarrow> bool" where
  "load_ok e \<longleftrightarrow>
     0 \<le> current_load e \<and> current_load e \<le> capacity e \<and>
     (\<forall>r. stored e r \<longrightarrow> 1 \<le> passengers r)"

text \<open>
  Bookkeeping of the floor map: a request is stored only under its own two floors, it
  is stored under its destination as long as it is stored at all, its destination is
  then a pending stop of its travel direction, and stored requests with one id are one
  request.
\<close>

definition tracked :: "Elevator \<Rightarrow> bool" where
  "tracked e \<longleftrightarrow>
     (\<forall>fl r. held e fl r \<longrightarrow> fl = pickup_floor r \<or> fl = destination_floor r) \<and>
     (\<forall>fl r. held e fl r \<longrightarrow> held e (destination_floor r) r) \<and>
     (\<forall>fl r. held e fl r \<longrightarrow> destination_floor r \<in> stops_of (request_direction r) e) \<and>
     (\<forall>fl fl' r r'. held e fl r \<and> held e fl' r' \<and> req_id r = req_id r' \<longrightarrow> r = r')"

section \<open>The specification's wording of the direction rule\<close>

text \<open>
  Written from the specification, not from the code: keep the direction if its own stop
  set has a floor strictly ahead; otherwise reverse if the other set is non-empty;
  otherwise reverse if the own set has a floor behind the car; otherwise idle.
\<close>

definition ahead :: "Direction \<Rightarrow> int \<Rightarrow> int \<Rightarrow> bool" where
  "ahead d fl f = (if d = UP then f > fl else f < fl)"

definition spec_direction :: "Direction \<Rightarrow> int \<Rightarrow> int set \<Rightarrow> int set \<Rightarrow> Direction" where
  "spec_direction d fl own other =
     (if \<exists>f \<in> own. ahead d fl f then d
      else if other \<noteq> {} then opposite d
      else if \<exists>f \<in> own. ahead (opposite d) fl f then opposite d
      else IDLE)"

section \<open>The specification's wording of the LOOK cost\<close>

text \<open>
  Written from the specification, not from the code, and read in exact arithmetic, as
  the specification states it. The cost starts at the distance between the car and the
  pickup floor. An idle car adds 0.5 per pending stop. A moving car multiplies the
  distance by 0.5 when it moves toward the pickup in the direction of the request, by
  1.5 when it moves toward the pickup in the other direction and by 2.0 when it moves
  away; then it adds 0.3 per pending stop, and the total is multiplied by 1.5 when the
  load is at least 0.8 times the capacity.
\<close>

definition toward :: "ElevatorState \<Rightarrow> int \<Rightarrow> bool" where
  "toward s pickup \<longleftrightarrow>
     (s_direction s = UP \<and> s_current_floor s \<le> pickup) \<or>
     (s_direction s = DOWN \<and> pickup \<le> s_current_floor s)"

definition exact_cost :: "ElevatorState \<Rightarrow> int \<Rightarrow> Direction \<Rightarrow> rat" where
  "exact_cost s pickup rdir =
     (let distance = of_int \<bar>s_current_floor s - pickup\<bar>;
          pending = of_nat (card (pending_stops_up s) + card (pending_stops_down s))
      in if is_idle s then distance + (1 / 2) * pending
         else
           let factor = (if toward s pickup \<and> s_direction s = rdir then 1 / 2
                         else if toward s pickup then 3 / 2
                         else 2);
               total = distance * factor + (3 / 10) * pending
           in if (4 / 5) * (of_int (s_capacity s) :: rat) \<le> of_int (s_current_load s)
              then total * (3 / 2) else total)"

text \<open>
  The same wording read in float arithmetic: the integers are converted to floats,
  the constants are float literals, and every product and sum is a float operation.
\<close>

definition spec_cost :: "ElevatorState \<Rightarrow> int \<Rightarrow> Direction \<Rightarrow> error + pyfloat" where
  "spec_cost s pickup rdir =
     (case (float_of_int \<bar>s_current_floor s - pickup\<bar>,
            float_of_int (int (card (pending_stops_up s) + card (pending_stops_down s)))) of
        (Inr distance, Inr pending) \<Rightarrow>
          (if is_idle s then Inr (fadd distance (fmul pending (lit (1 / 2))))
           else
             (let factor = (if toward s pickup \<and> s_direction s = rdir then lit (1 / 2)
                            else if toward s pickup then lit (3 / 2)
                            else lit 2);
                  total = fadd (fmul distance factor) (fmul pending (lit (3 / 10)))
              in (case float_of_int (s_capacity s) of
                    Inl err \<Rightarrow> Inl err
                  | Inr cap \<Rightarrow>
                      (if int_ge_float (s_current_load s) (fmul cap (lit (4 / 5)))
                       then Inr (fmul total (lit (3 / 2))) else Inr total))))
      | _ \<Rightarrow> Inl OverflowError)"

text \<open>
  The score the strategy computes for a car and a request, the cost when the
  computation does not raise, and the position of a float in the order of the floats
  that are not NaN: negative infinity, the rationals, positive infinity.
\<close>

definition score_of :: "Request \<Rightarrow> Elevator \<Rightarrow> error + pyfloat" where
  "score_of r e = calculate_score (get_state e) (pickup_floor r) (request_direction r)"

definition cost_of :: "Request \<Rightarrow> Elevator \<Rightarrow> pyfloat" where
  "cost_of r e = (case score_of r e of Inl err \<Rightarrow> NaN | Inr c \<Rightarrow> c)"

fun rank :: "pyfloat \<Rightarrow> int \<times> rat" where
  "rank NegInf = (- 1, 0)"
| "rank (Finite x) = (0, x)"
| "rank PosInf = (1, 0)"
| "rank NaN = (2, 0)"

text \<open>
  Index \<open>i\<close> holds the first minimum of \<open>f\<close> in a list: no entry is smaller and every
  earlier entry is strictly larger.
\<close>

definition first_minimum :: "('a \<Rightarrow> 'b::linorder) \<Rightarrow> 'a list \<Rightarrow> nat \<Rightarrow> bool" where
  "first_minimum f xs i \<longleftrightarrow>
     i < length xs \<and> (\<forall>j < length xs. f (xs ! i) \<le> f (xs ! j)) \<and> (\<forall>j < i. f (xs ! i) < f (xs ! j))"

text \<open>
  The same with the costs compared by the float comparison \<open><\<close> of the code: index
  \<open>i\<close> holds the first lowest cost when no entry of the list is less than the entry at
  \<open>i\<close> and the entry at \<open>i\<close> is less than every earlier entry.
\<close>

definition first_lowest :: "('a \<Rightarrow> pyfloat) \<Rightarrow> 'a list \<Rightarrow> nat \<Rightarrow> bool" where
  "first_lowest c xs i \<longleftrightarrow>
     i < length xs \<and> (\<forall>j < length xs. \<not> fless (c (xs ! j)) (c (xs ! i)))
     \<and> (\<forall>j < i. fless (c (xs ! i)) (c (xs ! j)))"

text \<open>
  Two fleets for one request from floor 4 to floor 6. In \<open>tie_fleet\<close> the first car has
  served floor 0 and stands at floor 1 going up with the stop 9; the second car stands
  at floor 4 going up with six stops.
\<close>

definition tie_car0 :: Elevator where
  "tie_car0 = step (snd (add_request (car 0 8 0) (req 2 0 9 1)))"

definition tie_car1 :: Elevator where
  "tie_car1 =
     snd (add_request (snd (add_request (snd (add_request (car 1 8 4) (req 3 5 6 1)))
       (req 4 7 8 1))) (req 5 9 10 1))"

text \<open>
  A building whose top floor is \<open>2 ^ 1024\<close>. The distance \<open>2 ^ 1024\<close> is too large for a
  float, and the distance \<open>2 ^ 1023\<close> times \<open>2.0\<close> is infinite. \<open>far_car\<close> stands at
  floor \<open>2 ^ 1023\<close> and goes up.
\<close>

definition huge :: int where
  "huge = 2 ^ 1023"

definition tall_car :: "int \<Rightarrow> Elevator" where
  "tall_car start = (car 0 8 start)\<lparr>max_floor := 2 * huge\<rparr>"

definition far_car :: Elevator where
  "far_car = snd (add_request (tall_car huge) (req 2 (huge + 1) (huge + 2) 1))"

section \<open>Which fields each operation leaves alone\<close>

lemma process_fixed [simp]:
  "direction (process_current_floor e) = direction e"
  "current_floor (process_current_floor e) = current_floor e"
  "min_floor (process_current_floor e) = min_floor e"
  "max_floor (process_current_floor e) = max_floor e"
  "capacity (process_current_floor e) = capacity e"
  "door_state (process_current_floor e) = CLOSED"
  by (simp_all add: process_current_floor_def Let_def split: option.splits prod.splits)

lemma process_up_stops [simp]:
  "up_stops (process_current_floor e) =
     (if direction e = UP then up_stops e - {current_floor e} else up_stops e)"
  by (auto simp: process_current_floor_def Let_def split: option.splits prod.splits)

lemma process_down_stops [simp]:
  "down_stops (process_current_floor e) =
     (if direction e = DOWN then down_stops e - {current_floor e} else down_stops e)"
  by (auto simp: process_current_floor_def Let_def split: option.splits prod.splits)

lemma move_fixed [simp]:
  "direction (move e) = direction e"
  "min_floor (move e) = min_floor e"
  "max_floor (move e) = max_floor e"
  "capacity (move e) = capacity e"
  "door_state (move e) = door_state e"
  "current_load (move e) = current_load e"
  "up_stops (move e) = up_stops e"
  "down_stops (move e) = down_stops e"
  "active_requests (move e) = active_requests e"
  by (simp_all add: move_def)

lemma update_direction_fixed [simp]:
  "current_floor (update_direction e) = current_floor e"
  "min_floor (update_direction e) = min_floor e"
  "max_floor (update_direction e) = max_floor e"
  "capacity (update_direction e) = capacity e"
  "door_state (update_direction e) = door_state e"
  "current_load (update_direction e) = current_load e"
  "up_stops (update_direction e) = up_stops e"
  "down_stops (update_direction e) = down_stops e"
  "active_requests (update_direction e) = active_requests e"
  by (simp_all add: update_direction_def Let_def)

lemma advance_fixed [simp]:
  "direction (advance e) = direction e"
  "min_floor (advance e) = min_floor e"
  "max_floor (advance e) = max_floor e"
  "capacity (advance e) = capacity e"
  by (simp_all add: advance_def arrive_def Let_def)

lemma add_request_fixed [simp]:
  "min_floor (snd (add_request e r)) = min_floor e"
  "max_floor (snd (add_request e r)) = max_floor e"
  "capacity (snd (add_request e r)) = capacity e"
  "current_floor (snd (add_request e r)) = current_floor e"
  "door_state (snd (add_request e r)) = door_state e"
  "current_load (snd (add_request e r)) = current_load e"
  by (simp_all add: add_request_def Let_def)

lemma step_fixed [simp]:
  "min_floor (step e) = min_floor e"
  "max_floor (step e) = max_floor e"
  "capacity (step e) = capacity e"
  by (simp_all add: step_def)

lemma advance_not_at_stop:
  "direction e \<noteq> IDLE \<Longrightarrow> current_floor (advance e) \<notin> stops_of (direction e) (advance e)"
  by (cases "direction e")
     (auto simp: advance_def arrive_def Let_def stops_of_def is_current_floor_a_stop_def)

lemma nonempty_filter: "({f \<in> S. P f} \<noteq> {}) = (\<exists>f \<in> S. P f)"
  by auto

lemma update_direction_UP:
  "direction e = UP \<Longrightarrow> direction (update_direction e) =
     (if \<exists>f\<in>up_stops e. current_floor e < f then UP
      else if down_stops e \<noteq> {} then DOWN
      else if up_stops e \<noteq> {} then DOWN else IDLE)"
  by (auto simp: update_direction_def Let_def)

lemma update_direction_DOWN:
  "direction e = DOWN \<Longrightarrow> direction (update_direction e) =
     (if \<exists>f\<in>down_stops e. f < current_floor e then DOWN
      else if up_stops e \<noteq> {} then UP
      else if down_stops e \<noteq> {} then UP else IDLE)"
  by (auto simp: update_direction_def Let_def)

lemma spec_direction_not_here:
  assumes "fl \<notin> own" "d \<noteq> IDLE"
  shows "spec_direction d fl own other =
     (if \<exists>f\<in>own. ahead d fl f then d
      else if other \<noteq> {} then opposite d
      else if own \<noteq> {} then opposite d else IDLE)"
proof -
  have "(\<exists>f\<in>own. ahead (opposite d) fl f) = (own \<noteq> {})" if "\<not> (\<exists>f\<in>own. ahead d fl f)"
    using that assms by (cases d) (auto simp: ahead_def opposite_def, (metis linorder_neqE)+)
  then show ?thesis
    by (auto simp: spec_direction_def)
qed

lemma new_elevator_car:
  "1 \<le> cap \<Longrightarrow> 0 \<le> start \<Longrightarrow> start \<le> 10 \<Longrightarrow> new_elevator eid 0 10 cap start = Inr (car eid cap start)"
  by (simp add: new_elevator_def car_def)

lemma new_request_req:
  "p \<noteq> d \<Longrightarrow> 1 \<le> n \<Longrightarrow> new_request p d uid n = Inr (req uid p d n)"
  by (simp add: new_request_def req_def)

lemma arrive_fixed [simp]:
  "direction (arrive e) = direction e"
  "current_floor (arrive e) = current_floor e"
  "min_floor (arrive e) = min_floor e"
  "max_floor (arrive e) = max_floor e"
  "capacity (arrive e) = capacity e"
  by (simp_all add: arrive_def)

lemma door_arrive: "door_state e = CLOSED \<Longrightarrow> door_state (arrive e) = CLOSED"
  by (simp add: arrive_def)

lemma step_floor:
  "current_floor (step e) =
     (if direction e = IDLE \<or> \<not> has_pending_stops (arrive e) then current_floor e
      else current_floor (move (arrive e)))"
  by (simp add: step_def advance_def Let_def)

lemma move_floor:
  "current_floor (move e) =
     (if direction e = UP \<and> current_floor e < max_floor e then current_floor e + 1
      else if direction e = DOWN \<and> current_floor e > min_floor e then current_floor e - 1
      else current_floor e)"
  by (simp add: move_def)

lemmas run_defs =
  car_def req_def new_elevator_def new_request_def add_request_def can_accept_request_def
  track_def set_add_def set_discard_def request_direction_def step_def advance_def
  arrive_def is_current_floor_a_stop_def process_current_floor_def has_pending_stops_def
  move_def update_direction_def Let_def

section \<open>Accepting a request\<close>

text \<open>
  C1. \<open>add_request\<close> returns true exactly when the pickup floor and the destination
  floor both lie in the range from \<open>min_floor\<close> to \<open>max_floor\<close> and the passenger count
  is at most the capacity; the current load plays no part. When it returns false the
  elevator is the one it was before the call.
\<close>

theorem add_request_iff:
  "fst (add_request e r) =
     (min_floor e \<le> pickup_floor r \<and> pickup_floor r \<le> max_floor e \<and>
      min_floor e \<le> destination_floor r \<and> destination_floor r \<le> max_floor e \<and>
      passengers r \<le> capacity e)
   \<and> (\<not> fst (add_request e r) \<longrightarrow> snd (add_request e r) = e)"
  by (auto simp: add_request_def can_accept_request_def Let_def)

theorem add_request_iff_witness:
  "\<not> fst (add_request (car 0 5 0) (req 1 0 5 10))
   \<and> snd (add_request (car 0 5 0) (req 1 0 5 10)) = car 0 5 0"
  using add_request_iff [of "car 0 5 0" "req 1 0 5 10"]
  by (simp add: car_def req_def)

section \<open>The direction after a step\<close>

text \<open>
  C3. After a step of a car that is not idle, the direction is the one the
  specification's rule gives for the direction the car had, its floor after the step
  and the two stop sets after the step: keep the direction if its own stop set has a
  floor strictly ahead, otherwise reverse if the other stop set is non-empty, otherwise
  reverse if the own set has a floor behind the car, otherwise become idle.
\<close>

theorem step_direction:
  assumes "direction e \<noteq> IDLE"
  shows "direction (step e) =
     spec_direction (direction e) (current_floor (step e))
       (stops_of (direction e) (step e)) (stops_of (opposite (direction e)) (step e))"
proof -
  let ?a = "advance e"
  have here: "current_floor ?a \<notin> stops_of (direction e) ?a"
    using assms by (rule advance_not_at_stop)
  have st: "step e = update_direction ?a"
    using assms by (simp add: step_def)
  have da: "direction ?a = direction e" by simp
  show ?thesis
  proof (cases "direction e")
    case UP
    show ?thesis
      unfolding st using here UP update_direction_UP [of ?a]
      by (simp add: stops_of_def spec_direction_not_here opposite_def ahead_def)
  next
    case DOWN
    show ?thesis
      unfolding st using here DOWN update_direction_DOWN [of ?a]
      by (simp add: stops_of_def spec_direction_not_here opposite_def ahead_def)
  next
    case IDLE
    with assms show ?thesis by simp
  qed
qed

theorem step_direction_witness:
  "direction (snd (add_request (car 0 8 0) (req 1 0 2 1))) \<noteq> IDLE
   \<and> current_floor (step (snd (add_request (car 0 8 0) (req 1 0 2 1)))) = 1
   \<and> direction (step (snd (add_request (car 0 8 0) (req 1 0 2 1)))) = spec_direction UP 1 {2} {}"
proof -
  let ?c = "snd (add_request (car 0 8 0) (req 1 0 2 1))"
  have d: "direction ?c = UP" by (simp add: run_defs)
  have f: "current_floor (step ?c) = 1" by (simp add: run_defs)
  have u: "up_stops (step ?c) = {2}" by (simp add: run_defs insert_Diff_if)
  have w: "down_stops (step ?c) = {}" by (simp add: run_defs)
  from d have "direction ?c \<noteq> IDLE" by simp
  from step_direction [OF this] d f u w show ?thesis
    by (simp add: stops_of_def opposite_def)
qed

section \<open>The requests stored in the floor map\<close>

lemma filter_True_id [simp]: "filter (\<lambda>x. True) = (\<lambda>xs. xs)"
  by (rule ext) simp

lemma clean_up_apply:
  "clean_up fl cs m f =
     map_option (filter (\<lambda>x. \<forall>c \<in> set cs. f = fl \<or> f = pickup_floor c \<longrightarrow> req_id x \<noteq> req_id c))
       (m f)"
proof (induction cs arbitrary: m)
  case Nil
  show ?case by (cases "m f") simp_all
next
  case (Cons c cs)
  let ?m1 = "case m fl of None \<Rightarrow> m | Some xs \<Rightarrow> m(fl \<mapsto> set_discard c xs)"
  let ?m2 = "case ?m1 (pickup_floor c) of None \<Rightarrow> ?m1
             | Some xs \<Rightarrow> ?m1(pickup_floor c \<mapsto> set_discard c xs)"
  have m1: "?m1 f = map_option (filter (\<lambda>x. f = fl \<longrightarrow> req_id x \<noteq> req_id c)) (m f)"
    by (cases "f = fl"; cases "m fl") (auto simp: set_discard_def option.map_ident)
  have m2: "?m2 f = map_option (filter (\<lambda>x. f = pickup_floor c \<longrightarrow> req_id x \<noteq> req_id c)) (?m1 f)"
    by (cases "f = pickup_floor c"; cases "?m1 (pickup_floor c)")
       (auto simp: set_discard_def option.map_ident)
  have "clean_up fl (c # cs) m f = clean_up fl cs ?m2 f"
    by (simp add: Let_def)
  also have "\<dots> = map_option (filter (\<lambda>x. \<forall>c \<in> set cs. f = fl \<or> f = pickup_floor c \<longrightarrow> req_id x \<noteq> req_id c)) (?m2 f)"
    by (rule Cons.IH)
  also have "\<dots> = map_option (filter (\<lambda>x. \<forall>c \<in> set (c # cs). f = fl \<or> f = pickup_floor c \<longrightarrow> req_id x \<noteq> req_id c)) (m f)"
    unfolding m2 m1 by (cases "m f") (auto intro: filter_cong)
  finally show ?case .
qed

lemma process_active_eq:
  "active_requests (process_current_floor e) =
     (case active_requests e (current_floor e) of
        None \<Rightarrow> active_requests e
      | Some rs \<Rightarrow>
          let m = clean_up (current_floor e)
                    (snd (board_alight (current_floor e) (capacity e) rs (current_load e, [])))
                    (active_requests e)
          in if m (current_floor e) = Some [] then m(current_floor e := None) else m)"
  by (simp add: process_current_floor_def Let_def split: option.splits prod.splits)

lemma process_active:
  assumes "active_requests (process_current_floor e) f = Some ys"
  shows "\<exists>xs. active_requests e f = Some xs \<and> set ys \<subseteq> set xs"
proof (cases "active_requests e (current_floor e)")
  case None
  with assms show ?thesis by (simp add: process_active_eq)
next
  case (Some rs)
  let ?m = "clean_up (current_floor e)
              (snd (board_alight (current_floor e) (capacity e) rs (current_load e, [])))
              (active_requests e)"
  from assms Some have "?m f = Some ys"
    by (simp add: process_active_eq Let_def split: if_splits)
  then show ?thesis
    by (auto simp: clean_up_apply)
qed

lemma stored_process: "stored (process_current_floor e) r \<Longrightarrow> stored e r"
  unfolding stored_def using process_active by blast

lemma move_update_stored [simp]:
  "stored (move e) r = stored e r" "stored (update_direction e) r = stored e r"
  by (simp_all add: stored_def)

lemma stored_arrive: "stored (arrive e) r \<Longrightarrow> stored e r"
  by (auto simp: arrive_def dest: stored_process split: if_splits)

lemma stored_advance: "stored (advance e) r \<Longrightarrow> stored e r"
proof -
  assume a: "stored (advance e) r"
  show ?thesis
  proof (cases "has_pending_stops (arrive e)")
    case True
    with a have "stored (arrive (move (arrive e))) r" by (simp add: advance_def Let_def)
    then have "stored (move (arrive e)) r" by (rule stored_arrive)
    then show ?thesis by (simp add: stored_arrive)
  next
    case False
    with a show ?thesis by (simp add: advance_def Let_def stored_arrive)
  qed
qed

lemma stored_step: "stored (step e) r \<Longrightarrow> stored e r"
  by (cases "direction e = IDLE") (simp_all add: step_def stored_advance)

lemma track_member:
  "track fl r m f = Some ys \<Longrightarrow> x \<in> set ys \<Longrightarrow>
     x = r \<or> (\<exists>xs. m f = Some xs \<and> x \<in> set xs)"
  by (cases "m fl"; cases "f = fl") (auto simp: track_def set_add_def split: if_splits)

lemma add_request_active:
  "active_requests (snd (add_request e r)) =
     (if can_accept_request e r
      then track (destination_floor r) r (track (pickup_floor r) r (active_requests e))
      else active_requests e)"
  by (simp add: add_request_def Let_def)

lemma stored_add_request:
  assumes "stored (snd (add_request e r)) x"
  shows "stored e x \<or> x = r"
proof (cases "can_accept_request e r")
  case False
  with assms show ?thesis by (simp add: add_request_def)
next
  case True
  from assms obtain f ys where
    ys: "track (destination_floor r) r (track (pickup_floor r) r (active_requests e)) f = Some ys"
    and x: "x \<in> set ys"
    by (auto simp: stored_def add_request_active True)
  from track_member [OF ys x] show ?thesis
  proof
    assume "x = r" then show ?thesis ..
  next
    assume "\<exists>xs. track (pickup_floor r) r (active_requests e) f = Some xs \<and> x \<in> set xs"
    then obtain xs where "track (pickup_floor r) r (active_requests e) f = Some xs" "x \<in> set xs"
      by blast
    from track_member [OF this] show ?thesis by (auto simp: stored_def)
  qed
qed

lemma same_requests_member:
  assumes "same_requests m m'"
  shows "(\<exists>rs. m fl = Some rs \<and> r \<in> set rs) = (\<exists>rs. m' fl = Some rs \<and> r \<in> set rs)"
proof -
  have rel: "rel_option (\<lambda>xs ys. mset xs = mset ys) (m fl) (m' fl)"
    using assms by (simp add: same_requests_def)
  show ?thesis
  proof (cases "m fl")
    case None
    with rel show ?thesis by (cases "m' fl") simp_all
  next
    case (Some xs)
    with rel obtain ys where "m' fl = Some ys" "mset xs = mset ys"
      by (cases "m' fl") simp_all
    with Some show ?thesis by (auto dest: mset_eq_setD)
  qed
qed

lemma stored_iterate:
  "same_requests (active_requests e) m \<Longrightarrow> stored (e\<lparr>active_requests := m\<rparr>) r = stored e r"
  by (simp add: stored_def same_requests_member [of "active_requests e" m])

lemma reachable_passengers: "reachable e \<Longrightarrow> stored e r \<Longrightarrow> 1 \<le> passengers r"
proof (induction arbitrary: r rule: reachable.induct)
  case (construct eid lo hi cap start e)
  then show ?case by (auto simp: new_elevator_def stored_def split: if_splits)
next
  case (request e p d uid n r')
  from stored_add_request [OF request.prems] show ?case
  proof
    assume "stored e r" then show ?thesis by (rule request.IH)
  next
    assume "r = r'"
    with request.hyps(2) show ?thesis by (auto simp: new_request_def split: if_splits)
  qed
next
  case (tick e)
  then show ?case by (blast dest: stored_step)
next
  case (iterate e m)
  then show ?case by (simp add: stored_iterate)
qed

lemma reachable_example:
  "reachable (step (snd (add_request (car 0 2 0) (req 1 0 5 2))))"
proof -
  have "reachable (car 0 2 0)"
    by (rule reachable.construct [of 0 0 10 2 0]) (simp add: new_elevator_car)
  then have "reachable (snd (add_request (car 0 2 0) (req 1 0 5 2)))"
    by (rule reachable.request [of _ 0 5 1 2]) (simp add: new_request_req)
  then show ?thesis by (rule reachable.tick)
qed

lemma reachable_uid_example:
  "reachable_uid (step (snd (add_request (car 0 2 0) (req 1 0 5 2))))"
proof -
  have c: "reachable_uid (car 0 2 0)"
    by (rule reachable_uid.construct_uid [of 0 0 10 2 0]) (simp add: new_elevator_car)
  have n: "new_request 0 5 1 2 = Inr (req 1 0 5 2)"
    by (simp add: new_request_req)
  have "id_fresh (car 0 2 0) (req 1 0 5 2)"
    by (simp add: id_fresh_def stored_def car_def)
  with c n have "reachable_uid (snd (add_request (car 0 2 0) (req 1 0 5 2)))"
    by (rule reachable_uid.request_uid)
  then show ?thesis by (rule reachable_uid.tick_uid)
qed

section \<open>The load\<close>

lemma board_alight_bounds:
  "0 \<le> load \<Longrightarrow> load \<le> cap \<Longrightarrow> \<forall>r \<in> set rs. 0 \<le> passengers r \<Longrightarrow>
     0 \<le> fst (board_alight fl cap rs (load, cs)) \<and> fst (board_alight fl cap rs (load, cs)) \<le> cap"
proof (induction rs arbitrary: load cs)
  case Nil
  then show ?case by simp
next
  case (Cons r rs)
  then have p: "0 \<le> passengers r" and rest: "\<forall>r \<in> set rs. 0 \<le> passengers r" by simp_all
  show ?case
  proof (cases "destination_floor r = fl")
    case True
    have "0 \<le> max 0 (load - passengers r)" "max 0 (load - passengers r) \<le> cap"
      using Cons.prems(1,2) p by auto
    from Cons.IH [OF this rest] True show ?thesis by simp
  next
    case False
    show ?thesis
    proof (cases "pickup_floor r = fl \<and> load + passengers r \<le> cap")
      case True
      then have "0 \<le> load + passengers r" "load + passengers r \<le> cap"
        using Cons.prems(1) p by auto
      from Cons.IH [OF this rest] True False show ?thesis by simp
    next
      case no: False
      from Cons.IH [OF Cons.prems(1,2) rest] no False show ?thesis by auto
    qed
  qed
qed

lemma process_load_eq:
  "current_load (process_current_floor e) =
     (case active_requests e (current_floor e) of
        None \<Rightarrow> current_load e
      | Some rs \<Rightarrow>
          fst (board_alight (current_floor e) (capacity e) rs (current_load e, [])))"
  by (simp add: process_current_floor_def Let_def split: option.splits prod.splits)

lemma process_load:
  assumes "0 \<le> current_load e" "current_load e \<le> capacity e"
    and "\<And>r. stored e r \<Longrightarrow> 0 \<le> passengers r"
  shows "0 \<le> current_load (process_current_floor e) \<and>
         current_load (process_current_floor e) \<le> capacity e"
proof (cases "active_requests e (current_floor e)")
  case None
  then show ?thesis using assms(1,2) by (simp add: process_load_eq)
next
  case (Some rs)
  then have "\<forall>r \<in> set rs. 0 \<le> passengers r"
    using assms(3) by (auto simp: stored_def)
  from board_alight_bounds [OF assms(1,2) this, of "current_floor e" "[]"] Some
  show ?thesis by (simp add: process_load_eq)
qed

lemma load_ok_arrive: "load_ok e \<Longrightarrow> load_ok (arrive e)"
proof (cases "is_current_floor_a_stop e")
  case False
  assume "load_ok e" with False show ?thesis by (simp add: arrive_def)
next
  case True
  assume ok: "load_ok e"
  then have "\<And>r. stored e r \<Longrightarrow> 0 \<le> passengers r"
    by (fastforce simp: load_ok_def)
  with ok have "0 \<le> current_load (process_current_floor e) \<and>
      current_load (process_current_floor e) \<le> capacity e"
    by (intro process_load) (simp_all add: load_ok_def)
  moreover have "\<And>r. stored (process_current_floor e) r \<Longrightarrow> 1 \<le> passengers r"
    using ok stored_process [of e] by (simp add: load_ok_def)
  ultimately show ?thesis using True by (simp add: arrive_def load_ok_def)
qed

lemma load_ok_move: "load_ok e \<Longrightarrow> load_ok (move e)"
  by (simp add: load_ok_def)

lemma load_ok_update_direction: "load_ok e \<Longrightarrow> load_ok (update_direction e)"
  by (simp add: load_ok_def)

lemma load_ok_step: "load_ok e \<Longrightarrow> load_ok (step e)"
  by (simp add: step_def advance_def Let_def load_ok_arrive load_ok_move
      load_ok_update_direction)

text \<open>
  C7. In every state reachable from construction by \<open>add_request\<close> and \<open>step\<close> the
  current load is at least zero and at most the capacity: boarding is guarded by
  \<open>load + passengers \<le> capacity\<close> and alighting is floored at zero.
\<close>

theorem load_in_range:
  "reachable e \<Longrightarrow> 0 \<le> current_load e \<and> current_load e \<le> capacity e"
proof (induction rule: reachable.induct)
  case (construct eid lo hi cap start e)
  then show ?case by (auto simp: new_elevator_def split: if_splits)
next
  case (request e p d uid n r)
  then show ?case by simp
next
  case (tick e)
  then have "load_ok e"
    using reachable_passengers [of e] by (simp add: load_ok_def)
  then have "load_ok (step e)" by (rule load_ok_step)
  then show ?case by (simp add: load_ok_def)
next
  case (iterate e m)
  then show ?case by simp
qed

theorem load_in_range_witness:
  "reachable (step (snd (add_request (car 0 2 0) (req 1 0 5 2))))
   \<and> current_load (step (snd (add_request (car 0 2 0) (req 1 0 5 2)))) = 2
   \<and> capacity (step (snd (add_request (car 0 2 0) (req 1 0 5 2)))) = 2
   \<and> 0 \<le> current_load (step (snd (add_request (car 0 2 0) (req 1 0 5 2))))
   \<and> current_load (step (snd (add_request (car 0 2 0) (req 1 0 5 2))))
       \<le> capacity (step (snd (add_request (car 0 2 0) (req 1 0 5 2))))"
proof -
  let ?c = "step (snd (add_request (car 0 2 0) (req 1 0 5 2)))"
  have l: "current_load ?c = 2" by (simp add: run_defs)
  have k: "capacity ?c = 2" by (simp add: run_defs)
  from load_in_range [OF reachable_example] reachable_example l k show ?thesis by simp
qed

section \<open>The floor\<close>

text \<open>
  C8. In every reachable state the current floor lies between \<open>min_floor\<close> and
  \<open>max_floor\<close>. A step leaves the floor alone when the car is idle or no stop remains
  after the arrival processing, and otherwise moves it by exactly one in the current
  direction, clamped at \<open>max_floor\<close> going up and at \<open>min_floor\<close> going down.
\<close>

theorem floor_in_range:
  "reachable e \<Longrightarrow>
     min_floor e \<le> current_floor e \<and> current_floor e \<le> max_floor e \<and>
     current_floor (step e) =
       (if direction e = IDLE \<or> \<not> has_pending_stops (arrive e) then current_floor e
        else if direction e = UP then min (current_floor e + 1) (max_floor e)
        else max (current_floor e - 1) (min_floor e))"
proof -
  assume r: "reachable e"
  have range: "min_floor e \<le> current_floor e \<and> current_floor e \<le> max_floor e" using r
  proof (induction rule: reachable.induct)
    case (construct eid lo hi cap start e)
    then show ?case by (auto simp: new_elevator_def split: if_splits)
  next
    case (request e p d uid n r)
    then show ?case by simp
  next
    case (tick e)
    then show ?case by (auto simp: step_floor move_floor)
  next
    case (iterate e m)
    then show ?case by simp
  qed
  have "direction e = DOWN" if "direction e \<noteq> IDLE" "direction e \<noteq> UP"
    using that by (cases "direction e") simp_all
  with range show ?thesis
    by (auto simp: step_floor move_floor)
qed

theorem floor_in_range_witness:
  "reachable (step (snd (add_request (car 0 2 0) (req 1 0 5 2))))
   \<and> current_floor (step (snd (add_request (car 0 2 0) (req 1 0 5 2)))) = 1
   \<and> current_floor (step (step (snd (add_request (car 0 2 0) (req 1 0 5 2))))) = 2"
proof -
  let ?c = "step (snd (add_request (car 0 2 0) (req 1 0 5 2)))"
  have f: "current_floor ?c = 1" by (simp add: run_defs)
  have d: "direction ?c = UP" by (auto simp: run_defs)
  have u: "up_stops ?c = {5}" by (simp add: run_defs insert_Diff_if)
  have m: "max_floor ?c = 10" by (simp add: run_defs)
  have "\<not> is_current_floor_a_stop ?c"
    unfolding is_current_floor_a_stop_def Let_def d f u by simp
  then have w: "arrive ?c = ?c" by (simp add: arrive_def)
  have p: "has_pending_stops (arrive ?c)"
    unfolding w has_pending_stops_def u by simp
  from floor_in_range [OF reachable_example] reachable_example f d m p show ?thesis by simp
qed

section \<open>The doors\<close>

text \<open>
  C10. In every reachable state, that is after construction, after every
  \<open>add_request\<close> and after every completed \<open>step\<close>, the doors are closed: they open and
  close again inside the arrival processing.
\<close>

theorem doors_closed: "reachable e \<Longrightarrow> door_state e = CLOSED"
proof (induction rule: reachable.induct)
  case (construct eid lo hi cap start e)
  then show ?case by (auto simp: new_elevator_def split: if_splits)
next
  case (request e p d uid n r)
  then show ?case by simp
next
  case (tick e)
  then show ?case
    by (simp add: step_def advance_def Let_def door_arrive)
next
  case (iterate e m)
  then show ?case by simp
qed

theorem doors_closed_witness:
  "reachable (step (snd (add_request (car 0 2 0) (req 1 0 5 2))))
   \<and> door_state (step (snd (add_request (car 0 2 0) (req 1 0 5 2)))) = CLOSED"
  using doors_closed [OF reachable_example] reachable_example by simp

section \<open>Stored requests and pending stops\<close>

lemma stored_held: "stored e r = (\<exists>fl. held e fl r)"
  by (auto simp: stored_def held_def)

lemma board_alight_completed:
  "set (snd (board_alight fl cap rs (load, cs))) = set cs \<union> {r \<in> set rs. destination_floor r = fl}"
  by (induction rs arbitrary: load cs) auto

lemma held_process:
  "held (process_current_floor e) f x =
     (held e f x \<and>
      \<not> (\<exists>c. held e (current_floor e) c \<and> destination_floor c = current_floor e \<and>
             req_id c = req_id x \<and> (f = current_floor e \<or> f = pickup_floor c)))"
proof (cases "active_requests e (current_floor e)")
  case None
  then show ?thesis by (simp add: held_def process_active_eq)
next
  case (Some rs)
  let ?fl = "current_floor e"
  let ?cs = "snd (board_alight ?fl (capacity e) rs (current_load e, []))"
  let ?m = "clean_up ?fl ?cs (active_requests e)"
  let ?m' = "if ?m ?fl = Some [] then ?m(?fl := None) else ?m"
  have act: "active_requests (process_current_floor e) = ?m'"
    using Some by (simp add: process_active_eq Let_def)
  have same: "(\<exists>ys. ?m' f = Some ys \<and> x \<in> set ys) = (\<exists>ys. ?m f = Some ys \<and> x \<in> set ys)"
    by auto
  have cs: "set ?cs = {r \<in> set rs. destination_floor r = ?fl}"
    by (simp add: board_alight_completed)
  have "(\<exists>ys. ?m f = Some ys \<and> x \<in> set ys) =
      (held e f x \<and> (\<forall>c \<in> set ?cs. f = ?fl \<or> f = pickup_floor c \<longrightarrow> req_id x \<noteq> req_id c))"
    by (cases "active_requests e f") (simp_all add: clean_up_apply held_def)
  also have "\<dots> = (held e f x \<and>
      \<not> (\<exists>c. held e ?fl c \<and> destination_floor c = ?fl \<and>
             req_id c = req_id x \<and> (f = ?fl \<or> f = pickup_floor c)))"
    unfolding cs using Some by (auto simp: held_def)
  finally show ?thesis
    unfolding held_def [of "process_current_floor e"] act same .
qed

lemma track_apply:
  "track fl r m f =
     (if f = fl then Some (set_add r (case m fl of None \<Rightarrow> [] | Some rs \<Rightarrow> rs)) else m f)"
  by (cases "m fl") (simp_all add: track_def)

lemma set_set_add:
  "\<forall>x \<in> set rs. req_id x = req_id r \<longrightarrow> x = r \<Longrightarrow> set (set_add r rs) = insert r (set rs)"
  by (auto simp: set_add_def)

lemma held_track:
  assumes "\<And>x. (\<exists>rs. m fl = Some rs \<and> x \<in> set rs) \<Longrightarrow> req_id x = req_id r \<Longrightarrow> x = r"
  shows "(\<exists>ys. track fl r m f = Some ys \<and> x \<in> set ys) =
           ((\<exists>ys. m f = Some ys \<and> x \<in> set ys) \<or> (x = r \<and> f = fl))"
proof (cases "f = fl")
  case False
  then show ?thesis by (simp add: track_apply)
next
  case True
  show ?thesis
  proof (cases "m fl")
    case None
    with True show ?thesis by (simp add: track_apply set_add_def)
  next
    case (Some rs)
    with assms have "\<forall>x \<in> set rs. req_id x = req_id r \<longrightarrow> x = r" by simp
    from set_set_add [OF this] True Some show ?thesis by (auto simp: track_apply)
  qed
qed

lemma held_add_request:
  assumes "can_accept_request e r" "id_fresh e r"
  shows "held (snd (add_request e r)) f x =
           (held e f x \<or> (x = r \<and> (f = pickup_floor r \<or> f = destination_floor r)))"
proof -
  let ?m = "active_requests e"
  let ?m1 = "track (pickup_floor r) r ?m"
  have fresh: "\<And>fl x. (\<exists>rs. ?m fl = Some rs \<and> x \<in> set rs) \<Longrightarrow> req_id x = req_id r \<Longrightarrow> x = r"
    using assms(2) by (auto simp: id_fresh_def stored_def)
  have one: "\<And>g y. (\<exists>ys. ?m1 g = Some ys \<and> y \<in> set ys) =
      ((\<exists>ys. ?m g = Some ys \<and> y \<in> set ys) \<or> (y = r \<and> g = pickup_floor r))"
    by (rule held_track) (rule fresh)
  have "\<And>y. (\<exists>rs. ?m1 (destination_floor r) = Some rs \<and> y \<in> set rs) \<Longrightarrow> req_id y = req_id r \<Longrightarrow> y = r"
    unfolding one using fresh by blast
  from held_track [of ?m1 "destination_floor r" r f x, OF this]
  have "(\<exists>ys. track (destination_floor r) r ?m1 f = Some ys \<and> x \<in> set ys) =
      ((\<exists>ys. ?m1 f = Some ys \<and> x \<in> set ys) \<or> (x = r \<and> f = destination_floor r))"
    by blast
  then show ?thesis
    unfolding held_def add_request_active one using assms(1) by auto
qed

lemma trackedD:
  assumes "tracked e" "held e fl r"
  shows "fl = pickup_floor r \<or> fl = destination_floor r"
    and "held e (destination_floor r) r"
    and "destination_floor r \<in> stops_of (request_direction r) e"
    and "held e fl' r' \<Longrightarrow> req_id r = req_id r' \<Longrightarrow> r = r'"
  using assms unfolding tracked_def by blast+

lemma held_process_not_done:
  assumes t: "tracked e" and h: "held (process_current_floor e) f x"
  shows "held e f x" and "destination_floor x \<noteq> current_floor e"
proof -
  show old: "held e f x" using h by (simp add: held_process)
  show "destination_floor x \<noteq> current_floor e"
  proof
    assume d: "destination_floor x = current_floor e"
    from trackedD(2) [OF t old] d have "held e (current_floor e) x" by simp
    moreover from trackedD(1) [OF t old] d have "f = current_floor e \<or> f = pickup_floor x" by auto
    ultimately show False using h d by (auto simp: held_process)
  qed
qed

lemma stops_of_process:
  "fl \<in> stops_of d e \<Longrightarrow> fl \<noteq> current_floor e \<Longrightarrow> fl \<in> stops_of d (process_current_floor e)"
  by (auto simp: stops_of_def split: if_splits)

lemma tracked_process:
  assumes t: "tracked e"
  shows "tracked (process_current_floor e)"
  unfolding tracked_def
proof (intro conjI allI impI)
  fix fl r assume h: "held (process_current_floor e) fl r"
  note old = held_process_not_done [OF t h]
  show "fl = pickup_floor r \<or> fl = destination_floor r"
    using trackedD(1) [OF t old(1)] .
  show "destination_floor r \<in> stops_of (request_direction r) (process_current_floor e)"
    using trackedD(3) [OF t old(1)] old(2) by (rule stops_of_process)
  show "held (process_current_floor e) (destination_floor r) r"
  proof (rule ccontr)
    assume n: "\<not> held (process_current_floor e) (destination_floor r) r"
    have "held e (destination_floor r) r" using trackedD(2) [OF t old(1)] .
    with n obtain c where c: "held e (current_floor e) c" "destination_floor c = current_floor e"
        "req_id c = req_id r"
      by (auto simp: held_process)
    from trackedD(4) [OF t c(1) old(1) c(3)] c(2) old(2) show False by simp
  qed
next
  fix fl fl' r r'
  assume "held (process_current_floor e) fl r \<and> held (process_current_floor e) fl' r' \<and>
    req_id r = req_id r'"
  then have "held e fl r" "held e fl' r'" "req_id r = req_id r'"
    by (simp_all add: held_process)
  from trackedD(4) [OF t this] show "r = r'" .
qed

lemma tracked_arrive: "tracked e \<Longrightarrow> tracked (arrive e)"
  by (simp add: arrive_def tracked_process)

lemma held_move_update [simp]:
  "held (move e) fl r = held e fl r" "held (update_direction e) fl r = held e fl r"
  by (simp_all add: held_def)

lemma stops_of_move_update [simp]:
  "stops_of d (move e) = stops_of d e" "stops_of d (update_direction e) = stops_of d e"
  by (simp_all add: stops_of_def)

lemma tracked_cong:
  assumes "\<And>fl r. held e' fl r = held e fl r" and "\<And>d. stops_of d e' = stops_of d e"
  shows "tracked e' = tracked e"
  unfolding tracked_def assms ..

lemma tracked_move: "tracked e \<Longrightarrow> tracked (move e)"
  by (simp add: tracked_cong [of "move e" e])

lemma tracked_update_direction: "tracked e \<Longrightarrow> tracked (update_direction e)"
  by (simp add: tracked_cong [of "update_direction e" e])

lemma tracked_step: "tracked e \<Longrightarrow> tracked (step e)"
  by (simp add: step_def advance_def Let_def tracked_arrive tracked_move
      tracked_update_direction)

lemma add_request_stops:
  "up_stops (snd (add_request e r)) =
     (if can_accept_request e r \<and> request_direction r = UP
      then insert (destination_floor r) (insert (pickup_floor r) (up_stops e))
      else up_stops e)"
  "down_stops (snd (add_request e r)) =
     (if can_accept_request e r \<and> request_direction r \<noteq> UP
      then insert (destination_floor r) (insert (pickup_floor r) (down_stops e))
      else down_stops e)"
  by (simp_all add: add_request_def Let_def)

lemma stops_of_add_request:
  "fl \<in> stops_of d e \<Longrightarrow> fl \<in> stops_of d (snd (add_request e r))"
  by (auto simp: stops_of_def add_request_stops split: if_splits)

lemma stops_of_add_request_dest:
  "can_accept_request e r \<Longrightarrow>
     destination_floor r \<in> stops_of (request_direction r) (snd (add_request e r))"
  by (auto simp: stops_of_def add_request_stops split: if_splits)

lemma tracked_add_request:
  assumes t: "tracked e" and f: "id_fresh e r"
  shows "tracked (snd (add_request e r))"
proof (cases "can_accept_request e r")
  case False
  with t show ?thesis by (simp add: add_request_def)
next
  case True
  note h = held_add_request [OF True f]
  have fresh: "\<And>fl x. held e fl x \<Longrightarrow> req_id x = req_id r \<Longrightarrow> x = r"
    using f by (auto simp: id_fresh_def stored_held)
  show ?thesis
    unfolding tracked_def h
  proof (intro conjI allI impI)
    fix fl x
    assume a: "held e fl x \<or> x = r \<and> (fl = pickup_floor r \<or> fl = destination_floor r)"
    show "fl = pickup_floor x \<or> fl = destination_floor x"
      using a trackedD(1) [OF t] by blast
    show "held e (destination_floor x) x \<or>
        x = r \<and> (destination_floor x = pickup_floor r \<or> destination_floor x = destination_floor r)"
      using a trackedD(2) [OF t] by blast
    show "destination_floor x \<in> stops_of (request_direction x) (snd (add_request e r))"
      using a trackedD(3) [OF t] stops_of_add_request stops_of_add_request_dest [OF True]
      by blast
  next
    fix fl fl' x x'
    assume "(held e fl x \<or> x = r \<and> (fl = pickup_floor r \<or> fl = destination_floor r)) \<and>
       (held e fl' x' \<or> x' = r \<and> (fl' = pickup_floor r \<or> fl' = destination_floor r)) \<and>
       req_id x = req_id x'"
    then show "x = x'"
      using trackedD(4) [OF t] fresh by metis
  qed
qed

lemma held_iterate:
  "same_requests (active_requests e) m \<Longrightarrow> held (e\<lparr>active_requests := m\<rparr>) fl r = held e fl r"
  by (simp add: held_def same_requests_member [of "active_requests e" m])

lemma stops_of_iterate [simp]: "stops_of d (e\<lparr>active_requests := m\<rparr>) = stops_of d e"
  by (simp add: stops_of_def)

lemma tracked_iterate:
  "tracked e \<Longrightarrow> same_requests (active_requests e) m \<Longrightarrow> tracked (e\<lparr>active_requests := m\<rparr>)"
  by (simp add: tracked_cong [of "e\<lparr>active_requests := m\<rparr>" e] held_iterate)

lemma reachable_uid_reachable: "reachable_uid e \<Longrightarrow> reachable e"
  by (induction rule: reachable_uid.induct) (auto intro: reachable.intros)

lemma reachable_uid_tracked: "reachable_uid e \<Longrightarrow> tracked e"
proof (induction rule: reachable_uid.induct)
  case (construct_uid eid lo hi cap start e)
  then show ?case by (auto simp: new_elevator_def tracked_def held_def split: if_splits)
next
  case (request_uid e p d uid n r)
  then show ?case by (simp add: tracked_add_request)
next
  case (tick_uid e)
  then show ?case by (simp add: tracked_step)
next
  case (iterate_uid e m)
  then show ?case by (simp add: tracked_iterate)
qed

text \<open>
  C4, as amended. In every state reachable from construction by \<open>add_request\<close> and
  \<open>step\<close> in which each request handed to \<open>add_request\<close> shares its id with no
  different request that the car stores at that moment (as with the ids that \<open>Request\<close>
  draws by default), every request present in the floor map has its pickup floor or
  its destination floor in the stop set of its travel direction.
\<close>

theorem stored_request_has_pending_stop:
  "reachable_uid e \<Longrightarrow> stored e r \<Longrightarrow>
     pickup_floor r \<in> stops_of (request_direction r) e \<or>
     destination_floor r \<in> stops_of (request_direction r) e"
proof -
  assume "reachable_uid e" and "stored e r"
  then have "tracked e" and "\<exists>fl. held e fl r"
    by (simp_all add: reachable_uid_tracked stored_held)
  then show ?thesis using trackedD(3) by blast
qed

theorem stored_request_has_pending_stop_witness:
  "reachable_uid (step (snd (add_request (car 0 2 0) (req 1 0 5 2))))
   \<and> stored (step (snd (add_request (car 0 2 0) (req 1 0 5 2)))) (req 1 0 5 2)
   \<and> up_stops (step (snd (add_request (car 0 2 0) (req 1 0 5 2)))) = {5}
   \<and> (0 \<in> up_stops (step (snd (add_request (car 0 2 0) (req 1 0 5 2))))
      \<or> 5 \<in> up_stops (step (snd (add_request (car 0 2 0) (req 1 0 5 2)))))"
proof -
  let ?c = "step (snd (add_request (car 0 2 0) (req 1 0 5 2)))"
  have a: "active_requests ?c 5 = Some [req 1 0 5 2]" by (simp add: run_defs)
  then have s: "stored ?c (req 1 0 5 2)" unfolding stored_def by force
  have u: "up_stops ?c = {5}" by (simp add: run_defs insert_Diff_if)
  have r: "request_direction (req 1 0 5 2) = UP" "pickup_floor (req 1 0 5 2) = 0"
    "destination_floor (req 1 0 5 2) = 5"
    by (simp_all add: request_direction_def req_def)
  from stored_request_has_pending_stop [OF reachable_uid_example s] reachable_uid_example s u r
  show ?thesis by (simp add: stops_of_def)
qed

section \<open>The FCFS (round robin) strategy\<close>

lemma rotation_Suc:
  "rotation (Suc m) es compatible i =
     (if es ! (i mod length es) \<in> set compatible
      then (Some (es ! (i mod length es)), (i + 1) mod length es)
      else rotation m es compatible ((i + 1) mod length es))"
  by (simp add: Let_def)

lemma rotation_finds:
  "k < m \<Longrightarrow> es ! ((i + k) mod length es) \<in> set compatible \<Longrightarrow>
     \<forall>j < k. es ! ((i + j) mod length es) \<notin> set compatible \<Longrightarrow>
     rotation m es compatible i =
       (Some (es ! ((i + k) mod length es)), (i + k + 1) mod length es)"
proof (induction m arbitrary: i k)
  case 0
  then show ?case by simp
next
  case (Suc m)
  let ?n = "length es"
  show ?case
  proof (cases k)
    case 0
    with Suc.prems(2) show ?thesis unfolding rotation_Suc by simp
  next
    case (Suc k')
    have first: "es ! (i mod ?n) \<notin> set compatible"
      using Suc.prems(3) Suc by (metis add.right_neutral zero_less_Suc)
    have shift: "((i + 1) mod ?n + j) mod ?n = (i + Suc j) mod ?n" for j
      by (simp add: mod_add_left_eq)
    have "rotation m es compatible ((i + 1) mod ?n) =
        (Some (es ! (((i + 1) mod ?n + k') mod ?n)), ((i + 1) mod ?n + k' + 1) mod ?n)"
    proof (rule Suc.IH)
      show "k' < m" using Suc.prems(1) Suc by simp
      show "es ! (((i + 1) mod ?n + k') mod ?n) \<in> set compatible"
        unfolding shift using Suc.prems(2) Suc by simp
      show "\<forall>j<k'. es ! (((i + 1) mod ?n + j) mod ?n) \<notin> set compatible"
        unfolding shift
      proof (intro allI impI)
        fix j assume "j < k'"
        then have "Suc j < k" using Suc by simp
        with Suc.prems(3) show "es ! ((i + Suc j) mod ?n) \<notin> set compatible" by blast
      qed
    qed
    moreover have "((i + 1) mod ?n + k' + 1) mod ?n = (i + k + 1) mod ?n"
    proof -
      have "((i + 1) mod ?n + k' + 1) mod ?n = ((i + 1) mod ?n + Suc k') mod ?n" by simp
      also have "\<dots> = (i + Suc (Suc k')) mod ?n" by (rule shift)
      finally show ?thesis using Suc by simp
    qed
    ultimately have "rotation m es compatible ((i + 1) mod ?n) =
        (Some (es ! ((i + k) mod ?n)), (i + k + 1) mod ?n)"
      unfolding shift using Suc by simp
    with first show ?thesis unfolding rotation_Suc by simp
  qed
qed

lemma compatible_member:
  "i < length es \<Longrightarrow>
     (es ! i \<in> set (get_compatible_elevators r es)) = can_accept_request (es ! i) r"
  by (auto simp: get_compatible_elevators_def)

lemma some_offset:
  fixes i :: nat
  assumes "p < n"
  shows "\<exists>k < n. (i + k) mod n = p"
proof -
  let ?k = "p + (n - i mod n)"
  have lt: "i mod n < n" using assms by simp
  have "(i + ?k mod n) mod n = (i + ?k) mod n" by (rule mod_add_right_eq)
  also have "\<dots> = (i mod n + ?k) mod n" by (rule mod_add_left_eq [symmetric])
  also have "i mod n + ?k = p + n" using lt by simp
  also have "(p + n) mod n = p" using assms by simp
  finally have "(i + ?k mod n) mod n = p" .
  moreover have "?k mod n < n" using assms by simp
  ultimately show ?thesis by blast
qed

lemma fcfs_finds:
  assumes ne: "get_compatible_elevators r es \<noteq> []"
  shows "\<exists>k < length es.
           can_accept_request (es ! ((i + k) mod length es)) r \<and>
           (\<forall>j < k. \<not> can_accept_request (es ! ((i + j) mod length es)) r) \<and>
           fcfs_select_elevator i r es =
             (Some (es ! ((i + k) mod length es)), (i + k + 1) mod length es)"
proof -
  let ?n = "length es"
  let ?P = "\<lambda>k. k < ?n \<and> can_accept_request (es ! ((i + k) mod ?n)) r"
  from ne obtain x where "x \<in> set es" "can_accept_request x r"
    by (auto simp: get_compatible_elevators_def filter_empty_conv)
  then obtain p where p: "p < ?n" "can_accept_request (es ! p) r"
    by (auto simp: in_set_conv_nth)
  from some_offset [OF p(1), of i] p(2) have "\<exists>k. ?P k" by auto
  then have least: "?P (LEAST k. ?P k)" by (rule LeastI_ex)
  define k where "k = (LEAST k. ?P k)"
  have k: "k < ?n" "can_accept_request (es ! ((i + k) mod ?n)) r"
    using least by (simp_all add: k_def)
  have before: "\<not> can_accept_request (es ! ((i + j) mod ?n)) r" if "j < k" for j
  proof
    assume "can_accept_request (es ! ((i + j) mod ?n)) r"
    with that k(1) have "?P j" by simp
    then have "k \<le> j" unfolding k_def by (rule Least_le)
    with that show False by simp
  qed
  have pos: "0 < ?n" using p(1) by (cases es) simp_all
  have mem: "(es ! ((i + j) mod ?n) \<in> set (get_compatible_elevators r es)) =
      can_accept_request (es ! ((i + j) mod ?n)) r" for j
    using pos by (simp add: compatible_member)
  have "rotation ?n es (get_compatible_elevators r es) i =
      (Some (es ! ((i + k) mod ?n)), (i + k + 1) mod ?n)"
    by (rule rotation_finds) (simp_all add: mem k before)
  moreover from ne obtain c cs where "get_compatible_elevators r es = c # cs"
    by (cases "get_compatible_elevators r es") auto
  ultimately have "fcfs_select_elevator i r es =
      (Some (es ! ((i + k) mod ?n)), (i + k + 1) mod ?n)"
    by (simp add: fcfs_select_elevator_def Let_def)
  with k before show ?thesis by blast
qed

lemma fcfs_all_compatible:
  assumes "\<forall>e \<in> set es. can_accept_request e r" "es \<noteq> []"
  shows "fcfs_select_elevator i r es = (Some (es ! (i mod length es)), (i + 1) mod length es)"
proof -
  have ne: "get_compatible_elevators r es \<noteq> []"
    using assms by (cases es) (auto simp: get_compatible_elevators_def)
  from fcfs_finds [OF ne, of i] obtain k where k: "k < length es"
    "\<forall>j < k. \<not> can_accept_request (es ! ((i + j) mod length es)) r"
    "fcfs_select_elevator i r es =
       (Some (es ! ((i + k) mod length es)), (i + k + 1) mod length es)"
    by blast
  have "k = 0"
  proof (rule ccontr)
    assume "k \<noteq> 0"
    with k(2) have "\<not> can_accept_request (es ! ((i + 0) mod length es)) r" by blast
    moreover have "es ! ((i + 0) mod length es) \<in> set es" using assms(2) by simp
    ultimately show False using assms(1) by blast
  qed
  with k(3) show ?thesis by simp
qed

lemma fcfs_three:
  assumes "can_accept_request a q" "can_accept_request b q" "can_accept_request c q"
  shows "fcfs_select_elevator 0 q [a, b, c] = (Some a, 1)"
    and "fcfs_select_elevator (Suc 0) q [a, b, c] = (Some b, 2)"
    and "fcfs_select_elevator 2 q [a, b, c] = (Some c, 0)"
  using assms by (simp_all add: fcfs_all_compatible)

text \<open>
  C6, as amended. On a fleet of three cars that all accept the request, six calls
  from a fresh strategy instance select the cars in the order 0, 1, 2, 0, 1, 2. A call
  for which at least one car of the fleet is compatible returns the first compatible
  car met from the rotating index on, after skipping \<open>k\<close> incompatible cars with
  \<open>k\<close> below the fleet size, and leaves the index advanced by \<open>k + 1\<close> positions
  modulo the fleet size. A call for which no car is compatible returns none and leaves
  the index as it was.
\<close>

theorem fcfs_round_robin:
  "(can_accept_request a q \<and> can_accept_request b q \<and> can_accept_request c q \<longrightarrow>
      fcfs_assign 0 [q, q, q, q, q, q] [a, b, c] =
        [Some a, Some b, Some c, Some a, Some b, Some c])
   \<and> (get_compatible_elevators r es \<noteq> [] \<longrightarrow>
        (\<exists>k < length es.
           can_accept_request (es ! ((i + k) mod length es)) r \<and>
           (\<forall>j < k. \<not> can_accept_request (es ! ((i + j) mod length es)) r) \<and>
           fcfs_select_elevator i r es =
             (Some (es ! ((i + k) mod length es)), (i + k + 1) mod length es)))
   \<and> (get_compatible_elevators r' es' = [] \<longrightarrow>
        fcfs_select_elevator i' r' es' = (None, i'))"
proof (intro conjI impI)
  assume "can_accept_request a q \<and> can_accept_request b q \<and> can_accept_request c q"
  then show "fcfs_assign 0 [q, q, q, q, q, q] [a, b, c] =
      [Some a, Some b, Some c, Some a, Some b, Some c]"
    by (simp add: fcfs_three)
next
  assume "get_compatible_elevators r es \<noteq> []"
  then show "\<exists>k < length es.
      can_accept_request (es ! ((i + k) mod length es)) r \<and>
      (\<forall>j < k. \<not> can_accept_request (es ! ((i + j) mod length es)) r) \<and>
      fcfs_select_elevator i r es =
        (Some (es ! ((i + k) mod length es)), (i + k + 1) mod length es)"
    by (rule fcfs_finds)
next
  assume "get_compatible_elevators r' es' = []"
  then show "fcfs_select_elevator i' r' es' = (None, i')"
    by (simp add: fcfs_select_elevator_def)
qed

theorem fcfs_round_robin_witness:
  "can_accept_request (car 0 100 0) (req 7 0 5 1)
   \<and> can_accept_request (car 1 100 0) (req 7 0 5 1)
   \<and> can_accept_request (car 2 100 0) (req 7 0 5 1)
   \<and> map (map_option elevator_id)
        (fcfs_assign 0 [req 7 0 5 1, req 7 0 5 1, req 7 0 5 1, req 7 0 5 1, req 7 0 5 1,
           req 7 0 5 1] [car 0 100 0, car 1 100 0, car 2 100 0])
      = [Some 0, Some 1, Some 2, Some 0, Some 1, Some 2]
   \<and> get_compatible_elevators (req 8 0 5 1)
        [(car 0 8 0)\<lparr>max_floor := 3\<rparr>, car 1 8 0, car 2 8 0] \<noteq> []
   \<and> fcfs_select_elevator 0 (req 8 0 5 1)
        [(car 0 8 0)\<lparr>max_floor := 3\<rparr>, car 1 8 0, car 2 8 0] = (Some (car 1 8 0), 2)
   \<and> get_compatible_elevators (req 9 0 15 1) [car 0 8 0] = []
   \<and> fcfs_select_elevator 0 (req 9 0 15 1) [car 0 8 0] = (None, 0)"
proof -
  let ?q = "req 7 0 5 1"
  let ?low = "(car 0 8 0)\<lparr>max_floor := 3\<rparr>"
  let ?es = "[?low, car 1 8 0, car 2 8 0]"
  note inst = fcfs_round_robin [of "car 0 100 0" ?q "car 1 100 0" "car 2 100 0"
      "req 8 0 5 1" ?es 0 "req 9 0 15 1" "[car 0 8 0]" 0]
  have all: "can_accept_request (car 0 100 0) ?q" "can_accept_request (car 1 100 0) ?q"
      "can_accept_request (car 2 100 0) ?q"
    by (simp_all add: can_accept_request_def car_def req_def)
  have nobody: "get_compatible_elevators (req 9 0 15 1) [car 0 8 0] = []"
    by (simp add: get_compatible_elevators_def can_accept_request_def car_def req_def)
  have two: "\<not> can_accept_request ?low (req 8 0 5 1)"
      "can_accept_request (car 1 8 0) (req 8 0 5 1)"
      "can_accept_request (car 2 8 0) (req 8 0 5 1)"
    by (simp_all add: can_accept_request_def car_def req_def)
  then have compat: "get_compatible_elevators (req 8 0 5 1) ?es = [car 1 8 0, car 2 8 0]"
    by (simp add: get_compatible_elevators_def)
  then have some: "get_compatible_elevators (req 8 0 5 1) ?es \<noteq> []" by simp
  have other: "?low \<noteq> car 1 8 0" "?low \<noteq> car 2 8 0"
    by (simp_all add: car_def)
  have rot: "rotation (length ?es) ?es [car 1 8 0, car 2 8 0] 0 =
      (Some (?es ! ((0 + 1) mod length ?es)), (0 + 1 + 1) mod length ?es)"
    by (rule rotation_finds) (simp_all add: other)
  have sel: "fcfs_select_elevator 0 (req 8 0 5 1) ?es = (Some (car 1 8 0), 2)"
    unfolding fcfs_select_elevator_def compat Let_def list.case rot by simp
  have ids: "elevator_id (car 0 100 0) = 0" "elevator_id (car 1 100 0) = 1"
      "elevator_id (car 2 100 0) = 2"
    by (simp_all add: car_def)
  have run: "fcfs_assign 0 [?q, ?q, ?q, ?q, ?q, ?q] [car 0 100 0, car 1 100 0, car 2 100 0] =
      [Some (car 0 100 0), Some (car 1 100 0), Some (car 2 100 0),
       Some (car 0 100 0), Some (car 1 100 0), Some (car 2 100 0)]"
    using inst all by blast
  have none: "fcfs_select_elevator 0 (req 9 0 15 1) [car 0 8 0] = (None, 0)"
    using inst nobody by blast
  have order: "map (map_option elevator_id)
      (fcfs_assign 0 [?q, ?q, ?q, ?q, ?q, ?q] [car 0 100 0, car 1 100 0, car 2 100 0])
      = [Some 0, Some 1, Some 2, Some 0, Some 1, Some 2]"
    unfolding run by (simp add: ids)
  from all order some sel nobody none show ?thesis by blast
qed

text \<open>
  C6 as stated fails for a call without a compatible car: a fresh strategy, three
  default cars (floors 0 to 10) and a request from floor 0 to floor 15. The call returns
  no car and the index is still 0.
\<close>

theorem fcfs_no_compatible_counterexample:
  "fcfs_select_elevator 0 (req 9 0 15 1) [car 0 8 0, car 1 8 0, car 2 8 0] = (None, 0)"
  by (simp add: fcfs_select_elevator_def get_compatible_elevators_def
      can_accept_request_def car_def req_def)

section \<open>Construction errors\<close>

lemma with_elevators_error:
  "isl (with_elevators b cnt cap sf) \<longleftrightarrow>
     cnt < 1 \<or> cap < 1 \<or> (\<exists>xs. sf = Some xs \<and> xs \<noteq> [] \<and> int (length xs) \<noteq> cnt)"
proof (cases sf)
  case None
  then show ?thesis by (simp add: with_elevators_def)
next
  case (Some xs)
  then show ?thesis by (cases xs) (simp_all add: with_elevators_def)
qed

text \<open>
  C9, as amended. Constructing an elevator raises exactly when \<open>min_floor\<close> exceeds
  \<open>max_floor\<close>, the capacity is below 1 or the start floor is outside the floor range;
  constructing a request raises exactly when pickup and destination are equal or the
  passenger count is below 1; \<open>with_elevators\<close> raises exactly when the car count is
  below 1, the capacity is below 1, or a non-empty list of start floors has a length
  different from the car count. An absent or empty list of start floors is accepted.
\<close>

theorem construction_errors:
  "(isl (new_elevator eid lo hi cap start) \<longleftrightarrow> lo > hi \<or> cap < 1 \<or> start < lo \<or> hi < start)
   \<and> (isl (new_request p d uid n) \<longleftrightarrow> p = d \<or> n < 1)
   \<and> (isl (with_elevators b cnt bcap sf) \<longleftrightarrow>
        cnt < 1 \<or> bcap < 1 \<or> (\<exists>xs. sf = Some xs \<and> xs \<noteq> [] \<and> int (length xs) \<noteq> cnt))"
proof (intro conjI)
  show "isl (new_elevator eid lo hi cap start) \<longleftrightarrow> lo > hi \<or> cap < 1 \<or> start < lo \<or> hi < start"
    by (auto simp: new_elevator_def)
  show "isl (new_request p d uid n) \<longleftrightarrow> p = d \<or> n < 1"
    by (simp add: new_request_def)
  show "isl (with_elevators b cnt bcap sf) \<longleftrightarrow>
      cnt < 1 \<or> bcap < 1 \<or> (\<exists>xs. sf = Some xs \<and> xs \<noteq> [] \<and> int (length xs) \<noteq> cnt)"
    by (rule with_elevators_error)
qed

theorem construction_errors_witness:
  "isl (new_elevator 0 10 5 8 0) \<and> isl (new_elevator 0 0 10 8 15)
   \<and> isl (new_elevator 0 0 10 0 0) \<and> \<not> isl (new_elevator 1 1 20 12 10)
   \<and> isl (new_request 5 5 1 1) \<and> isl (new_request 0 5 1 0) \<and> \<not> isl (new_request 0 5 1 1)
   \<and> isl (with_elevators new_builder 3 10 (Some [0, 10]))
   \<and> \<not> isl (with_elevators new_builder 3 10 (Some [0, 10, 20]))
   \<and> \<not> isl (with_elevators new_builder 3 10 None)"
  using construction_errors [of 0 10 5 8 0 5 5 1 1 new_builder 3 10 "Some [0, 10]"]
    construction_errors [of 0 0 10 8 15 0 5 1 0 new_builder 3 10 "Some [0, 10, 20]"]
    construction_errors [of 0 0 10 0 0 0 5 1 1 new_builder 3 10 None]
    construction_errors [of 1 1 20 12 10 0 5 1 1 new_builder 3 10 None]
  by simp

text \<open>
  C9 as stated fails for the empty list of start floors: its length 0 differs from the
  car count 2, and \<open>with_elevators\<close> raises nothing.
\<close>

theorem empty_start_floors_counterexample:
  "int (length ([] :: int list)) \<noteq> 2 \<and> \<not> isl (with_elevators new_builder 2 8 (Some []))"
  by (simp add: with_elevators_def)

section \<open>A pickup that does not fit\<close>

lemma fst_add_request: "fst (add_request e r) = can_accept_request e r"
  by (simp add: add_request_def Let_def)

lemmas step_defs =
  car_def req_def add_request_def can_accept_request_def
  track_def set_add_def set_discard_def request_direction_def step_def advance_def
  arrive_def is_current_floor_a_stop_def process_current_floor_def has_pending_stops_def
  move_def update_direction_def Let_def insert_Diff_if

lemma overfull_eq:
  "overfull = \<lparr>elevator_id = 0, min_floor = 0, max_floor = 10, capacity = 2,
      current_floor = 0, direction = UP, door_state = CLOSED,
      current_load = 0, up_stops = {0, 1, 3, 5}, down_stops = {},
      active_requests = [0 \<mapsto> [req 3 0 5 2], 5 \<mapsto> [req 3 0 5 2],
                         1 \<mapsto> [req 4 1 3 1], 3 \<mapsto> [req 4 1 3 1]]\<rparr>"
  by (auto simp: overfull_def step_defs)

lemma overfull_step1:
  "step overfull = \<lparr>elevator_id = 0, min_floor = 0, max_floor = 10, capacity = 2,
      current_floor = 1, direction = UP, door_state = CLOSED,
      current_load = 2, up_stops = {3, 5}, down_stops = {},
      active_requests = [0 \<mapsto> [req 3 0 5 2], 5 \<mapsto> [req 3 0 5 2],
                         1 \<mapsto> [req 4 1 3 1], 3 \<mapsto> [req 4 1 3 1]]\<rparr>"
  unfolding overfull_eq by (auto simp: step_defs)

lemma overfull_step2:
  "step (step overfull) = \<lparr>elevator_id = 0, min_floor = 0, max_floor = 10, capacity = 2,
      current_floor = 2, direction = UP, door_state = CLOSED,
      current_load = 2, up_stops = {3, 5}, down_stops = {},
      active_requests = [0 \<mapsto> [req 3 0 5 2], 5 \<mapsto> [req 3 0 5 2],
                         1 \<mapsto> [req 4 1 3 1], 3 \<mapsto> [req 4 1 3 1]]\<rparr>"
  unfolding overfull_step1 by (auto simp: step_defs)

lemma overfull_step3:
  "step (step (step overfull)) = \<lparr>elevator_id = 0, min_floor = 0, max_floor = 10, capacity = 2,
      current_floor = 3, direction = UP, door_state = CLOSED,
      current_load = 1, up_stops = {5}, down_stops = {},
      active_requests = [0 \<mapsto> [req 3 0 5 2], 5 \<mapsto> [req 3 0 5 2], 1 \<mapsto> []]\<rparr>"
  unfolding overfull_step2 by (auto simp: step_defs)

text \<open>
  C2 on the code. Both requests are accepted. The first step boards the two
  passengers at floor 0 and arrives at floor 1, the pickup floor of the second request,
  whose passenger does not fit: the load stays 2, the request stays stored under
  floor 1, and floor 1 leaves the stop set. The car never returns to floor 1. The
  third step arrives at floor 3, the destination of the second request, removes that
  request from the floor map and lowers the load to 1 although its passenger never
  boarded and the two passengers of the first request are still in the car.
\<close>

theorem overfull_request_completed_without_boarding:
  "fst (add_request (car 0 2 0) (req 3 0 5 2))
   \<and> fst (add_request (snd (add_request (car 0 2 0) (req 3 0 5 2))) (req 4 1 3 1))
   \<and> current_floor (step overfull) = 1 \<and> current_load (step overfull) = 2
   \<and> held (step overfull) 1 (req 4 1 3 1) \<and> 1 \<notin> up_stops (step overfull)
   \<and> current_floor (step (step overfull)) = 2 \<and> current_load (step (step overfull)) = 2
   \<and> current_floor (step (step (step overfull))) = 3
   \<and> current_load (step (step (step overfull))) = 1
   \<and> \<not> stored (step (step (step overfull))) (req 4 1 3 1)
   \<and> stored (step (step (step overfull))) (req 3 0 5 2)"
proof -
  have accepted: "fst (add_request (car 0 2 0) (req 3 0 5 2))"
    "fst (add_request (snd (add_request (car 0 2 0) (req 3 0 5 2))) (req 4 1 3 1))"
    by (simp_all add: fst_add_request can_accept_request_def car_def req_def)
  have waiting: "held (step overfull) 1 (req 4 1 3 1)" "1 \<notin> up_stops (step overfull)"
    unfolding overfull_step1 held_def by simp_all
  have gone: "\<not> stored (step (step (step overfull))) (req 4 1 3 1)"
    unfolding overfull_step3 stored_def by (auto simp: req_def split: if_splits)
  have kept: "stored (step (step (step overfull))) (req 3 0 5 2)"
    unfolding overfull_step3 stored_def by (intro exI [of _ 5] exI [of _ "[req 3 0 5 2]"]) simp
  have first: "current_floor (step overfull) = 1" "current_load (step overfull) = 2"
    unfolding overfull_step1 by simp_all
  have second: "current_floor (step (step overfull)) = 2"
    "current_load (step (step overfull)) = 2"
    unfolding overfull_step2 by simp_all
  have third: "current_floor (step (step (step overfull))) = 3"
    "current_load (step (step (step overfull))) = 1"
    unfolding overfull_step3 by simp_all
  from accepted waiting gone kept first second third show ?thesis by blast
qed

section \<open>Rounding to a float\<close>

text \<open>
  \<open>floor_log2\<close> finds the binary exponent, so that a rounding is settled by naming the
  exponent \<open>k\<close> and the mantissa \<open>n\<close>: \<open>rnd x\<close> is \<open>n * 2 ^ (k - 52)\<close> when
  \<open>2 ^ k \<le> \<bar>x\<bar> < 2 ^ (k + 1)\<close> and \<open>n\<close> is the integer nearest to \<open>x / 2 ^ (k - 52)\<close>,
  the even one of two.
\<close>

lemma pow2_powi: "pow2 k = 2 powi k"
  by (simp add: pow2_def power_int_def field_simps)

lemma pow2_pos [simp]: "0 < pow2 k"
  by (simp add: pow2_powi)

lemma pow2_add: "pow2 (i + j) = pow2 i * pow2 j"
  by (simp add: pow2_powi power_int_add)

lemma pow2_diff: "pow2 i / pow2 j = pow2 (i - j)"
  by (simp add: pow2_powi power_int_diff)

lemma pow2_mono: "i \<le> j \<Longrightarrow> pow2 i \<le> pow2 j"
  by (simp add: pow2_powi power_int_increasing)

lemma pow2_unique:
  assumes "pow2 k \<le> x" "x < pow2 (k + 1)" "pow2 l \<le> x" "x < pow2 (l + 1)"
  shows "k = l"
proof (rule ccontr)
  assume "k \<noteq> l"
  then consider "k + 1 \<le> l" | "l + 1 \<le> k" by linarith
  then show False
  proof cases
    case 1
    then have "pow2 (k + 1) \<le> pow2 l" by (rule pow2_mono)
    with assms show False by linarith
  next
    case 2
    then have "pow2 (l + 1) \<le> pow2 k" by (rule pow2_mono)
    with assms show False by linarith
  qed
qed

lemma floor_log2_bounds:
  assumes "0 < x"
  shows "pow2 (floor_log2 x) \<le> x \<and> x < pow2 (floor_log2 x + 1)"
proof -
  obtain a b where q: "quotient_of x = (a, b)" by (cases "quotient_of x")
  then have b: "0 < b" by (rule quotient_of_denom_pos)
  from q have x: "x = of_int a / of_int b" by (rule quotient_of_div)
  with assms b have a: "0 < a" by (simp add: zero_less_divide_iff)
  let ?d = "bitlen a - bitlen b"
  have la: "1 \<le> bitlen a" and lb: "1 \<le> bitlen b"
    using a b by (simp_all add: bitlen_alt_def)
  from bitlen_bounds [OF a] have "(of_int a :: rat) < of_int (2 ^ nat (bitlen a))"
    unfolding of_int_less_iff by simp
  then have ua: "(of_int a :: rat) < pow2 (bitlen a)"
    using la by (simp add: pow2_def)
  from bitlen_bounds [OF b] have "(of_int (2 ^ nat (bitlen b - 1)) :: rat) \<le> of_int b"
    unfolding of_int_le_iff by simp
  then have lwb: "pow2 (bitlen b - 1) \<le> (of_int b :: rat)"
    using lb by (simp add: pow2_def)
  have "x < pow2 (bitlen a) / pow2 (bitlen b - 1)"
    unfolding x using ua lwb b a
    by (intro frac_less) (simp_all add: less_imp_le)
  also have "\<dots> = pow2 (bitlen a - (bitlen b - 1))" by (rule pow2_diff)
  also have "bitlen a - (bitlen b - 1) = ?d + 1" by simp
  finally have upper: "x < pow2 (?d + 1)" .
  show ?thesis
  proof (cases "pow2 ?d \<le> x")
    case True
    then have "floor_log2 x = ?d" by (simp add: floor_log2_def q)
    with True upper show ?thesis by simp
  next
    case False
    then have f: "floor_log2 x = ?d - 1" by (simp add: floor_log2_def q)
    from bitlen_bounds [OF a] have "(of_int (2 ^ nat (bitlen a - 1)) :: rat) \<le> of_int a"
      unfolding of_int_le_iff by simp
    then have lwa: "pow2 (bitlen a - 1) \<le> (of_int a :: rat)"
      using la by (simp add: pow2_def)
    from bitlen_bounds [OF b] have "(of_int b :: rat) < of_int (2 ^ nat (bitlen b))"
      unfolding of_int_less_iff by simp
    then have ub: "(of_int b :: rat) < pow2 (bitlen b)"
      using lb by (simp add: pow2_def)
    have "pow2 (bitlen a - 1) / pow2 (bitlen b) \<le> x"
      unfolding x using lwa ub b a
      by (intro frac_le) (simp_all add: less_imp_le)
    moreover have "pow2 (bitlen a - 1) / pow2 (bitlen b) = pow2 (bitlen a - 1 - bitlen b)"
      by (rule pow2_diff)
    moreover have "bitlen a - 1 - bitlen b = ?d - 1" by simp
    ultimately show ?thesis using False f by simp
  qed
qed

lemma floor_log2_eq:
  assumes "pow2 k \<le> x" "x < pow2 (k + 1)"
  shows "floor_log2 x = k"
proof -
  have "0 < x" using assms(1) pow2_pos [of k] by linarith
  from floor_log2_bounds [OF this] assms show ?thesis
    by (intro pow2_unique [of "floor_log2 x" x k]) simp_all
qed

text \<open>Rounding with a given exponent and mantissa.\<close>

lemma rnd_eval:
  assumes "x \<noteq> 0" "pow2 k \<le> \<bar>x\<bar>" "\<bar>x\<bar> < pow2 (k + 1)" "- 1022 \<le> k"
    and "round_half_even (x / pow2 (k - 52)) = n"
  shows "rnd x =
     (if pow2 1024 \<le> \<bar>of_int n * pow2 (k - 52)\<bar>
      then (if 0 < x then PosInf else NegInf)
      else Finite (of_int n * pow2 (k - 52)))"
proof -
  have "floor_log2 \<bar>x\<bar> = k" using assms(2,3) by (rule floor_log2_eq)
  then have "max (floor_log2 \<bar>x\<bar>) (- 1022) = k" using assms(4) by simp
  then show ?thesis
    using assms(1,5) by (simp add: rnd_def Let_def)
qed

lemma round_half_even_of_int [simp]: "round_half_even (of_int m) = m"
  by (simp add: round_half_even_def)

lemma round_half_even_nonneg: "0 \<le> q \<Longrightarrow> 0 \<le> round_half_even q"
  by (auto simp: round_half_even_def Let_def)

lemma rnd_nonneg: "0 \<le> x \<Longrightarrow> nonneg (rnd x)"
proof (cases "x = 0")
  case True
  then show ?thesis by (simp add: rnd_def)
next
  case False
  assume "0 \<le> x"
  with False have pos: "0 < x" by simp
  let ?ulp = "pow2 (max (floor_log2 \<bar>x\<bar>) (- 1022) - 52)"
  have "0 \<le> x / ?ulp" using pos by (simp add: less_imp_le)
  then have "0 \<le> round_half_even (x / ?ulp)" by (rule round_half_even_nonneg)
  then have "0 \<le> of_int (round_half_even (x / ?ulp)) * ?ulp"
    by (simp add: less_imp_le)
  then show ?thesis using pos False by (simp add: rnd_def Let_def)
qed

text \<open>Integers below \<open>2 ^ 53\<close> are floats.\<close>

lemma rnd_of_int_small:
  assumes "\<bar>n\<bar> < 2 ^ 53"
  shows "rnd (of_int n) = Finite (of_int n)"
proof (cases "n = 0")
  case True
  then show ?thesis by (simp add: rnd_def)
next
  case False
  let ?x = "of_int n :: rat"
  let ?k = "floor_log2 \<bar>?x\<bar>"
  have pos: "0 < \<bar>?x\<bar>" using False by simp
  note b = floor_log2_bounds [OF pos]
  have one: "pow2 0 \<le> \<bar>?x\<bar>"
  proof -
    have "1 \<le> \<bar>n\<bar>" using False by simp
    then have "(1 :: rat) \<le> of_int \<bar>n\<bar>" by (metis of_int_1_le_iff)
    then show ?thesis by (simp add: pow2_def)
  qed
  have lo: "0 \<le> ?k"
  proof (rule ccontr)
    assume "\<not> 0 \<le> ?k"
    then have "?k + 1 \<le> 0" by simp
    then have "pow2 (?k + 1) \<le> pow2 0" by (rule pow2_mono)
    with b one show False by linarith
  qed
  have top: "\<bar>?x\<bar> < pow2 53"
  proof -
    have "(of_int \<bar>n\<bar> :: rat) < of_int (2 ^ 53)" using assms unfolding of_int_less_iff .
    then show ?thesis by (simp add: pow2_def)
  qed
  have hi: "?k \<le> 52"
  proof (rule ccontr)
    assume "\<not> ?k \<le> 52"
    then have "53 \<le> ?k" by simp
    then have "pow2 53 \<le> pow2 ?k" by (rule pow2_mono)
    with b top show False by linarith
  qed
  define m where "m = n * 2 ^ nat (52 - ?k)"
  have inv: "pow2 (?k - 52) * pow2 (52 - ?k) = 1"
    by (simp add: pow2_add [symmetric] pow2_def)
  have up: "pow2 (52 - ?k) = of_int (2 ^ nat (52 - ?k))"
    using hi by (simp add: pow2_def)
  have "?x / pow2 (?k - 52) = ?x * pow2 (52 - ?k)"
    by (simp add: divide_inverse inverse_unique [OF inv])
  also have "\<dots> = of_int m" unfolding up m_def by simp
  finally have q: "?x / pow2 (?k - 52) = of_int m" .
  have nz: "pow2 (?k - 52) \<noteq> 0" by (metis pow2_pos less_irrefl)
  have y: "of_int m * pow2 (?k - 52) = ?x"
    unfolding q [symmetric] using nz by simp
  have r: "round_half_even (?x / pow2 (?k - 52)) = m" unfolding q by simp
  have k: "- 1022 \<le> ?k" using lo by simp
  have small: "\<not> pow2 1024 \<le> \<bar>?x\<bar>"
  proof -
    have "pow2 53 \<le> pow2 1024" by (rule pow2_mono) simp
    with top show ?thesis by linarith
  qed
  from rnd_eval [OF _ conjunct1 [OF b] conjunct2 [OF b] k r] False small
  show ?thesis unfolding y by simp
qed

lemma float_of_int_small: "\<bar>n\<bar> < 2 ^ 53 \<Longrightarrow> float_of_int n = Inr (Finite (of_int n))"
  by (simp add: float_of_int_def rnd_of_int_small)

lemma float_of_int_cases:
  "float_of_int n = Inl OverflowError \<or> (\<exists>y. float_of_int n = Inr (Finite y) \<and> (0 \<le> n \<longrightarrow> 0 \<le> y))"
proof (cases "rnd (of_int n)")
  case (Finite y)
  have "0 \<le> n \<Longrightarrow> nonneg (rnd (of_int n))" by (rule rnd_nonneg) simp
  with Finite show ?thesis by (simp add: float_of_int_def)
qed (simp_all add: float_of_int_def)

lemma round_half_even_cert:
  assumes "\<bar>q - of_int n\<bar> < 1 / 2 \<or> (\<bar>q - of_int n\<bar> = 1 / 2 \<and> even n)"
  shows "round_half_even q = n"
proof -
  consider (up) "of_int n \<le> q" "q - of_int n < 1 / 2"
    | (down) "q < of_int n" "of_int n - q < 1 / 2"
    | (tie_up) "q = of_int n + 1 / 2" "even n"
    | (tie_down) "q = of_int n - 1 / 2" "even n"
    using assms by (cases "of_int n \<le> q") (auto simp: abs_if split: if_splits)
  then show ?thesis
  proof cases
    case up
    then have "\<lfloor>q\<rfloor> = n" by (intro floor_unique) auto
    with up show ?thesis by (simp add: round_half_even_def Let_def)
  next
    case down
    then have "\<lfloor>q\<rfloor> = n - 1" by (intro floor_unique) auto
    with down show ?thesis by (simp add: round_half_even_def Let_def)
  next
    case tie_up
    then have "\<lfloor>q\<rfloor> = n" by (intro floor_unique) auto
    with tie_up show ?thesis by (simp add: round_half_even_def Let_def)
  next
    case tie_down
    then have "\<lfloor>q\<rfloor> = n - 1" by (intro floor_unique) auto
    with tie_down show ?thesis by (simp add: round_half_even_def Let_def)
  qed
qed

lemma rnd_cert:
  assumes "pow2 k \<le> \<bar>x\<bar>" "\<bar>x\<bar> < pow2 (k + 1)" "- 1022 \<le> k"
    and "\<bar>x / pow2 (k - 52) - of_int n\<bar> < 1 / 2
         \<or> (\<bar>x / pow2 (k - 52) - of_int n\<bar> = 1 / 2 \<and> even n)"
    and "of_int n * pow2 (k - 52) = y" "\<bar>y\<bar> < pow2 1024"
  shows "rnd x = Finite y"
proof -
  have "0 < \<bar>x\<bar>" using assms(1) by (rule less_le_trans [OF pow2_pos])
  then have "x \<noteq> 0" by simp
  from rnd_eval [OF this assms(1-3) round_half_even_cert [OF assms(4)]] assms(5,6)
  show ?thesis by simp
qed

text \<open>The float constants of \<open>_calculate_score\<close>.\<close>

lemma lit_half: "lit (1 / 2) = Finite (1 / 2)"
  unfolding lit_def
  by (rule rnd_cert [where k = "- 1" and n = "2 ^ 52"]) (simp_all add: pow2_def)

lemma lit_three_halves: "lit (3 / 2) = Finite (3 / 2)"
  unfolding lit_def
  by (rule rnd_cert [where k = 0 and n = "3 * 2 ^ 51"]) (simp_all add: pow2_def)

lemma lit_two: "lit 2 = Finite 2"
  unfolding lit_def
  by (rule rnd_cert [where k = 1 and n = "2 ^ 52"]) (simp_all add: pow2_def)

lemma lit_three_tenths: "lit (3 / 10) = Finite (5404319552844595 / 18014398509481984)"
  unfolding lit_def
  by (rule rnd_cert [where k = "- 2" and n = 5404319552844595]) (simp_all add: pow2_def)

lemma lit_four_fifths: "lit (4 / 5) = Finite (3602879701896397 / 4503599627370496)"
  unfolding lit_def
  by (rule rnd_cert [where k = "- 1" and n = 7205759403792794]) (simp_all add: pow2_def)

section \<open>The LOOK-score strategy\<close>

text \<open>
  Scores are never negative and never NaN, so that the comparison \<open><\<close> of the code
  orders them.
\<close>

lemma fless_rank: "nonneg a \<Longrightarrow> nonneg b \<Longrightarrow> fless a b \<longleftrightarrow> rank a < rank b"
  by (cases a; cases b) (auto simp: less_prod_def)

lemma fmul_nonneg: "nonneg a \<Longrightarrow> 0 < b \<Longrightarrow> nonneg (fmul a (Finite b))"
  by (cases a) (auto intro: rnd_nonneg)

lemma fadd_nonneg: "nonneg a \<Longrightarrow> nonneg b \<Longrightarrow> nonneg (fadd a b)"
  by (cases a; cases b) (auto intro: rnd_nonneg)

lemma float_of_int_nonneg: "float_of_int n = Inr c \<Longrightarrow> 0 \<le> n \<Longrightarrow> nonneg c"
  using float_of_int_cases [of n] by auto

lemma float_of_int_error: "float_of_int n = Inl err \<Longrightarrow> err = OverflowError"
  using float_of_int_cases [of n] by auto

lemmas lit_values = lit_half lit_three_halves lit_two lit_three_tenths lit_four_fifths

lemma calculate_score_error: "calculate_score s p rd = Inl err \<Longrightarrow> err = OverflowError"
  by (auto simp: calculate_score_def Let_def dest: float_of_int_error
      split: sum.splits if_splits)

lemma calculate_score_nonneg:
  assumes "calculate_score s p rd = Inr c"
  shows "nonneg c"
proof -
  obtain score where score: "float_of_int (distance_to s p) = Inr score"
    using assms by (auto simp: calculate_score_def Let_def split: sum.splits)
  obtain n where n: "float_of_int (int (total_pending_stops s)) = Inr n"
    using assms score by (auto simp: calculate_score_def Let_def split: sum.splits if_splits)
  have s0: "nonneg score" using score by (rule float_of_int_nonneg) (simp add: distance_to_def)
  have n0: "nonneg n" using n by (rule float_of_int_nonneg) simp
  have a: "nonneg (fmul n (Finite q))" if "0 < q" for q using n0 that by (rule fmul_nonneg)
  have b: "nonneg (fmul score (Finite q))" if "0 < q" for q using s0 that by (rule fmul_nonneg)
  show ?thesis
  proof (cases "is_idle s")
    case True
    with assms score n have "c = fadd score (fmul n (lit (1 / 2)))"
      by (simp add: calculate_score_def Let_def)
    then show ?thesis using s0 a by (simp add: lit_values fadd_nonneg)
  next
    case False
    define score1 where "score1 =
      (if s_direction s = UP
       then (if p \<ge> s_current_floor s
             then (if rd = UP then fmul score (lit (1 / 2)) else fmul score (lit (3 / 2)))
             else fmul score (lit 2))
       else if s_direction s = DOWN
       then (if p \<le> s_current_floor s
             then (if rd = DOWN then fmul score (lit (1 / 2)) else fmul score (lit (3 / 2)))
             else fmul score (lit 2))
       else score)"
    have s1: "nonneg score1" unfolding score1_def using s0 b by (simp add: lit_values)
    have s2: "nonneg (fadd score1 (fmul n (lit (3 / 10))))"
      using s1 a by (simp add: lit_values fadd_nonneg)
    from assms score n False
    have "c = fadd score1 (fmul n (lit (3 / 10)))
        \<or> c = fmul (fadd score1 (fmul n (lit (3 / 10)))) (lit (3 / 2))"
      unfolding score1_def
      by (auto simp: calculate_score_def Let_def split: sum.splits if_splits)
    then show ?thesis using s2 fmul_nonneg [OF s2, of "3 / 2"] by (auto simp: lit_values)
  qed
qed

text \<open>The code computes the specification's cost, read in float arithmetic.\<close>

lemma calculate_score_spec:
  assumes "s_direction s = IDLE \<longrightarrow> is_idle s"
  shows "calculate_score s pickup rdir = spec_cost s pickup rdir"
proof (cases "is_idle s")
  case True
  then show ?thesis
    by (auto simp: calculate_score_def spec_cost_def distance_to_def total_pending_stops_def
        Let_def dest: float_of_int_error split: sum.splits)
next
  case False
  with assms have "s_direction s = UP \<or> s_direction s = DOWN"
    by (cases "s_direction s") simp_all
  with False show ?thesis
    by (cases rdir)
       (auto simp: calculate_score_def spec_cost_def distance_to_def total_pending_stops_def
          toward_def Let_def dest: float_of_int_error split: sum.splits)
qed

text \<open>The loop of \<open>select_elevator\<close>.\<close>

lemma first_minimum_Cons_0:
  "\<forall>x \<in> set xs. f b \<le> f x \<Longrightarrow> first_minimum f (b # xs) 0"
  by (auto simp: first_minimum_def nth_Cons split: nat.splits)

lemma first_minimum_Cons_Suc:
  "first_minimum f xs i \<Longrightarrow> f (xs ! i) < f b \<Longrightarrow> first_minimum f (b # xs) (Suc i)"
  by (auto simp: first_minimum_def nth_Cons less_Suc_eq_0_disj split: nat.splits)

lemma first_minimum_ConsD:
  assumes "first_minimum f (b # xs) i"
  shows "(i = 0 \<and> (\<forall>y \<in> set xs. f b \<le> f y)) \<or>
         (\<exists>k. i = Suc k \<and> first_minimum f xs k \<and> f (xs ! k) < f b)"
proof (cases i)
  case 0
  have "f b \<le> f y" if "y \<in> set xs" for y
  proof -
    from that obtain j where j: "j < length xs" "xs ! j = y"
      by (auto simp: in_set_conv_nth)
    from assms 0 j(1) have "f ((b # xs) ! 0) \<le> f ((b # xs) ! Suc j)"
      unfolding first_minimum_def by (metis Suc_less_eq length_Cons)
    with j(2) show ?thesis by simp
  qed
  with 0 show ?thesis by blast
next
  case (Suc k)
  have k: "k < length xs" using assms Suc by (simp add: first_minimum_def)
  have le: "f (xs ! k) \<le> f (xs ! j)" if "j < length xs" for j
  proof -
    from assms Suc that have "f ((b # xs) ! Suc k) \<le> f ((b # xs) ! Suc j)"
      unfolding first_minimum_def by (metis Suc_less_eq length_Cons)
    then show ?thesis by simp
  qed
  have lt: "f (xs ! k) < f (xs ! j)" if "j < k" for j
  proof -
    from assms Suc that have "f ((b # xs) ! Suc k) < f ((b # xs) ! Suc j)"
      unfolding first_minimum_def by (metis Suc_less_eq)
    then show ?thesis by simp
  qed
  have "f ((b # xs) ! Suc k) < f ((b # xs) ! 0)"
    using assms Suc unfolding first_minimum_def by (metis zero_less_Suc)
  then have "f (xs ! k) < f b" by simp
  with k le lt Suc show ?thesis by (simp add: first_minimum_def)
qed

text \<open>The loop once a car has been taken as the best so far.\<close>

lemma cost_of_nonneg: "score_of r e = Inr c \<Longrightarrow> nonneg (cost_of r e)"
  by (simp add: cost_of_def score_of_def calculate_score_nonneg)

lemma look_loop_from:
  assumes "\<forall>e \<in> set (b # xs). \<exists>c. score_of r e = Inr c"
  shows "\<exists>i. first_minimum (\<lambda>e. rank (cost_of r e)) (b # xs) i \<and>
       look_loop (pickup_floor r) (request_direction r) xs (Some b, cost_of r b) =
         Inr (Some ((b # xs) ! i), cost_of r ((b # xs) ! i))"
  using assms
proof (induction xs arbitrary: b)
  case Nil
  show ?case by (rule exI [of _ 0]) (simp add: first_minimum_def)
next
  case (Cons x xs)
  let ?f = "\<lambda>e. rank (cost_of r e)"
  let ?p = "pickup_floor r"
  let ?d = "request_direction r"
  from Cons.prems obtain cx cb where cx: "score_of r x = Inr cx" and cb: "score_of r b = Inr cb"
    by auto
  have sx: "calculate_score (get_state x) ?p ?d = Inr (cost_of r x)"
    using cx by (simp add: cost_of_def score_of_def)
  have less: "fless (cost_of r x) (cost_of r b) \<longleftrightarrow> ?f x < ?f b"
    using cost_of_nonneg [OF cx] cost_of_nonneg [OF cb] by (rule fless_rank)
  show ?case
  proof (cases "?f x < ?f b")
    case True
    have "\<forall>e \<in> set (x # xs). \<exists>c. score_of r e = Inr c" using Cons.prems by simp
    from Cons.IH [OF this] obtain i where i: "first_minimum ?f (x # xs) i"
      and l: "look_loop ?p ?d xs (Some x, cost_of r x) =
          Inr (Some ((x # xs) ! i), cost_of r ((x # xs) ! i))"
      by blast
    from i have "?f ((x # xs) ! i) \<le> ?f ((x # xs) ! 0)"
      unfolding first_minimum_def by (metis length_Cons zero_less_Suc)
    with True have "?f ((x # xs) ! i) < ?f b" by simp
    with i have "first_minimum ?f (b # x # xs) (Suc i)" by (rule first_minimum_Cons_Suc)
    moreover have "look_loop ?p ?d (x # xs) (Some b, cost_of r b) =
        Inr (Some ((b # x # xs) ! Suc i), cost_of r ((b # x # xs) ! Suc i))"
      using True l less sx by simp
    ultimately show ?thesis by blast
  next
    case False
    have "\<forall>e \<in> set (b # xs). \<exists>c. score_of r e = Inr c" using Cons.prems by simp
    from Cons.IH [OF this] obtain i where i: "first_minimum ?f (b # xs) i"
      and l: "look_loop ?p ?d xs (Some b, cost_of r b) =
          Inr (Some ((b # xs) ! i), cost_of r ((b # xs) ! i))"
      by blast
    have loop: "look_loop ?p ?d (x # xs) (Some b, cost_of r b) =
        look_loop ?p ?d xs (Some b, cost_of r b)"
      using False less sx by simp
    from first_minimum_ConsD [OF i] show ?thesis
    proof (elim disjE conjE exE)
      assume 0: "i = 0" and all: "\<forall>y \<in> set xs. ?f b \<le> ?f y"
      with False have "first_minimum ?f (b # x # xs) 0"
        by (intro first_minimum_Cons_0) auto
      moreover have "look_loop ?p ?d (x # xs) (Some b, cost_of r b) =
          Inr (Some ((b # x # xs) ! 0), cost_of r ((b # x # xs) ! 0))"
        using loop l 0 by simp
      ultimately show ?thesis by blast
    next
      fix k
      assume k: "i = Suc k" and m: "first_minimum ?f xs k" and lt: "?f (xs ! k) < ?f b"
      from lt False have "?f (xs ! k) < ?f x" by simp
      with m have "first_minimum ?f (x # xs) (Suc k)" by (rule first_minimum_Cons_Suc)
      moreover have "?f ((x # xs) ! Suc k) < ?f b" using lt by simp
      ultimately have "first_minimum ?f (b # x # xs) (Suc (Suc k))"
        by (rule first_minimum_Cons_Suc)
      moreover have "look_loop ?p ?d (x # xs) (Some b, cost_of r b) =
          Inr (Some ((b # x # xs) ! Suc (Suc k)), cost_of r ((b # x # xs) ! Suc (Suc k)))"
        using loop l k by simp
      ultimately show ?thesis by blast
    qed
  qed
qed

text \<open>The loop from its start: cars of infinite score are passed over.\<close>

lemma look_loop_start:
  assumes "\<forall>e \<in> set xs. \<exists>c. score_of r e = Inr c"
    and "\<exists>e \<in> set xs. score_of r e \<noteq> Inr PosInf"
  shows "\<exists>i. first_minimum (\<lambda>e. rank (cost_of r e)) xs i \<and>
       look_loop (pickup_floor r) (request_direction r) xs (None, PosInf) =
         Inr (Some (xs ! i), cost_of r (xs ! i)) \<and>
       rank (cost_of r (xs ! i)) < rank PosInf"
  using assms
proof (induction xs)
  case Nil
  then show ?case by simp
next
  case (Cons x xs)
  let ?f = "\<lambda>e. rank (cost_of r e)"
  let ?p = "pickup_floor r"
  let ?d = "request_direction r"
  from Cons.prems obtain cx where cx: "score_of r x = Inr cx" by auto
  have sx: "calculate_score (get_state x) ?p ?d = Inr (cost_of r x)"
    using cx by (simp add: cost_of_def score_of_def)
  have less: "fless (cost_of r x) PosInf \<longleftrightarrow> ?f x < rank PosInf"
    using cost_of_nonneg [OF cx] by (intro fless_rank) simp_all
  show ?case
  proof (cases "?f x < rank PosInf")
    case True
    from look_loop_from [OF Cons.prems(1)] obtain i
      where i: "first_minimum ?f (x # xs) i"
      and l: "look_loop ?p ?d xs (Some x, cost_of r x) =
          Inr (Some ((x # xs) ! i), cost_of r ((x # xs) ! i))"
      by blast
    from i have "?f ((x # xs) ! i) \<le> ?f ((x # xs) ! 0)"
      unfolding first_minimum_def by (metis length_Cons zero_less_Suc)
    with True have "?f ((x # xs) ! i) < rank PosInf" by simp
    moreover have "look_loop ?p ?d (x # xs) (None, PosInf) =
        Inr (Some ((x # xs) ! i), cost_of r ((x # xs) ! i))"
      using True l less sx by simp
    ultimately show ?thesis using i by blast
  next
    case False
    have "cost_of r x = PosInf"
      using False cost_of_nonneg [OF cx] by (cases "cost_of r x") (auto simp: less_prod_def)
    then have inf: "score_of r x = Inr PosInf" using cx by (simp add: cost_of_def)
    have a: "\<forall>e \<in> set xs. \<exists>c. score_of r e = Inr c" using Cons.prems by simp
    have b: "\<exists>e \<in> set xs. score_of r e \<noteq> Inr PosInf" using Cons.prems(2) inf by auto
    from Cons.IH [OF a b] obtain i where i: "first_minimum ?f xs i"
      and l: "look_loop ?p ?d xs (None, PosInf) = Inr (Some (xs ! i), cost_of r (xs ! i))"
      and lt: "?f (xs ! i) < rank PosInf"
      by blast
    have "?f (xs ! i) < ?f x" using lt \<open>cost_of r x = PosInf\<close> by simp
    with i have "first_minimum ?f (x # xs) (Suc i)" by (rule first_minimum_Cons_Suc)
    moreover have "look_loop ?p ?d (x # xs) (None, PosInf) =
        Inr (Some ((x # xs) ! Suc i), cost_of r ((x # xs) ! Suc i))"
      using False l less sx by simp
    ultimately show ?thesis using lt by (intro exI [of _ "Suc i"]) simp
  qed
qed

lemma look_loop_all_inf:
  "\<forall>e \<in> set xs. score_of r e = Inr PosInf \<Longrightarrow>
   look_loop (pickup_floor r) (request_direction r) xs (None, PosInf) = Inr (None, PosInf)"
  by (induction xs) (simp_all add: score_of_def)

lemma look_loop_error:
  "\<exists>e \<in> set xs. isl (score_of r e) \<Longrightarrow>
   look_loop (pickup_floor r) (request_direction r) xs best = Inl OverflowError"
proof (induction xs arbitrary: best)
  case Nil
  then show ?case by simp
next
  case (Cons x xs)
  obtain be bs where best: "best = (be, bs)" by (cases best)
  show ?case
  proof (cases "score_of r x")
    case (Inl err)
    then have "err = OverflowError" unfolding score_of_def by (rule calculate_score_error)
    with Inl show ?thesis by (simp add: best score_of_def)
  next
    case (Inr c)
    with Cons.prems have "\<exists>e \<in> set xs. isl (score_of r e)" by auto
    from Cons.IH [OF this] Inr show ?thesis by (simp add: best score_of_def)
  qed
qed

lemma first_minimum_lowest:
  assumes "\<forall>e \<in> set xs. \<exists>c. score_of r e = Inr c"
    and "first_minimum (\<lambda>e. rank (cost_of r e)) xs i"
  shows "first_lowest (cost_of r) xs i"
proof -
  have nn: "nonneg (cost_of r (xs ! j))" if "j < length xs" for j
    using assms(1) that cost_of_nonneg by (metis nth_mem)
  have i: "i < length xs" using assms(2) by (simp add: first_minimum_def)
  have "\<not> fless (cost_of r (xs ! j)) (cost_of r (xs ! i))" if "j < length xs" for j
    using assms(2) that fless_rank [OF nn [OF that] nn [OF i]]
    by (auto simp: first_minimum_def not_less)
  moreover have "fless (cost_of r (xs ! i)) (cost_of r (xs ! j))" if "j < i" for j
  proof -
    from that i have j: "j < length xs" by simp
    show ?thesis
      using assms(2) that fless_rank [OF nn [OF i] nn [OF j]] by (auto simp: first_minimum_def)
  qed
  ultimately show ?thesis using i by (simp add: first_lowest_def)
qed

text \<open>The two cars of equal exact cost.\<close>

lemmas score_defs =
  calculate_score_def is_idle_def total_pending_stops_def distance_to_def

lemma rnd_0: "rnd 0 = Finite 0"
  by (simp add: rnd_def)

lemma tie_car0_state:
  "get_state tie_car0 =
     \<lparr>s_elevator_id = 0, s_current_floor = 1, s_direction = UP, s_door_state = CLOSED,
      s_current_load = 1, s_capacity = 8, pending_stops_up = {9}, pending_stops_down = {}\<rparr>"
  by (auto simp: tie_car0_def get_state_def step_defs)

lemma tie_car1_state:
  "get_state tie_car1 =
     \<lparr>s_elevator_id = 1, s_current_floor = 4, s_direction = UP, s_door_state = CLOSED,
      s_current_load = 0, s_capacity = 8, pending_stops_up = {5, 6, 7, 8, 9, 10},
      pending_stops_down = {}\<rparr>"
  by (auto simp: tie_car1_def get_state_def step_defs)

lemma capacity_8_threshold:
  "fmul (Finite 8) (Finite (3602879701896397 / 4503599627370496))
     = Finite (3602879701896397 / 562949953421312)"
  unfolding fmul.simps
  by (rule rnd_cert [where k = 2 and n = 7205759403792794]) (simp_all add: pow2_def)

lemma tie_car0_score:
  "calculate_score (get_state tie_car0) 4 UP
     = Inr (Finite (8106479329266893 / 4503599627370496))"
proof -
  have a: "fmul (Finite 3) (Finite (1 / 2)) = Finite (3 / 2)"
    unfolding fmul.simps
    by (rule rnd_cert [where k = 0 and n = "3 * 2 ^ 51"]) (simp_all add: pow2_def)
  have b: "fmul (Finite 1) (Finite (5404319552844595 / 18014398509481984))
      = Finite (5404319552844595 / 18014398509481984)"
    unfolding fmul.simps
    by (rule rnd_cert [where k = "- 2" and n = 5404319552844595]) (simp_all add: pow2_def)
  have c: "fadd (Finite (3 / 2)) (Finite (5404319552844595 / 18014398509481984))
      = Finite (8106479329266893 / 4503599627370496)"
    unfolding fadd.simps
    by (rule rnd_cert [where k = 0 and n = 8106479329266893]) (simp_all add: pow2_def)
  show ?thesis
    unfolding tie_car0_state
    by (simp add: score_defs lit_values float_of_int_small a b c capacity_8_threshold
        del: fmul.simps fadd.simps)
qed

lemma tie_car1_score:
  "calculate_score (get_state tie_car1) 4 UP
     = Inr (Finite (2026619832316723 / 1125899906842624))"
proof -
  have a: "fmul (Finite 0) (Finite (1 / 2)) = Finite 0"
    by (simp add: rnd_0)
  have b: "fmul (Finite 6) (Finite (5404319552844595 / 18014398509481984))
      = Finite (2026619832316723 / 1125899906842624)"
    unfolding fmul.simps
    by (rule rnd_cert [where k = 0 and n = 8106479329266892]) (simp_all add: pow2_def)
  have c: "fadd (Finite 0) (Finite (2026619832316723 / 1125899906842624))
      = Finite (2026619832316723 / 1125899906842624)"
    unfolding fadd.simps
    by (rule rnd_cert [where k = 0 and n = 8106479329266892]) (simp_all add: pow2_def)
  show ?thesis
    unfolding tie_car1_state
    by (simp add: score_defs lit_values float_of_int_small a b c capacity_8_threshold
        del: fmul.simps fadd.simps)
qed

lemma tie_exact:
  "exact_cost (get_state tie_car0) 4 UP = 9 / 5"
  "exact_cost (get_state tie_car1) 4 UP = 9 / 5"
  unfolding tie_car0_state tie_car1_state
  by (simp_all add: exact_cost_def is_idle_def toward_def)

text \<open>The tall building.\<close>

lemma rnd_cert_inf:
  assumes "0 < x" "pow2 k \<le> \<bar>x\<bar>" "\<bar>x\<bar> < pow2 (k + 1)" "- 1022 \<le> k"
    and "\<bar>x / pow2 (k - 52) - of_int n\<bar> < 1 / 2
         \<or> (\<bar>x / pow2 (k - 52) - of_int n\<bar> = 1 / 2 \<and> even n)"
    and "pow2 1024 \<le> \<bar>of_int n * pow2 (k - 52)\<bar>"
  shows "rnd x = PosInf"
proof -
  have "x \<noteq> 0" using assms(1) by simp
  from rnd_eval [OF this assms(2-4) round_half_even_cert [OF assms(5)]] assms(1,6)
  show ?thesis by simp
qed

lemma huge_pos: "2 \<le> huge"
  by (simp add: huge_def)

lemma float_of_int_huge: "float_of_int huge = Inr (Finite (of_int huge))"
proof -
  have "rnd (of_int huge) = Finite (of_int huge)"
    by (rule rnd_cert [where k = 1023 and n = "2 ^ 52"]) (simp_all add: pow2_def huge_def)
  then show ?thesis by (simp add: float_of_int_def)
qed

lemma float_of_int_twice_huge: "float_of_int (2 * huge) = Inl OverflowError"
proof -
  have "rnd (of_int (2 * huge)) = PosInf"
    by (rule rnd_cert_inf [where k = 1024 and n = "2 ^ 52"]) (simp_all add: pow2_def huge_def)
  then show ?thesis by (simp add: float_of_int_def)
qed

lemma fmul_huge_2: "fmul (Finite (of_int huge)) (Finite 2) = PosInf"
  unfolding fmul.simps
  by (rule rnd_cert_inf [where k = 1024 and n = "2 ^ 52"]) (simp_all add: pow2_def huge_def)

lemma tall_car_score:
  "calculate_score (get_state (tall_car 0)) (2 * huge) DOWN = Inl OverflowError"
proof -
  have "distance_to (get_state (tall_car 0)) (2 * huge) = 2 * huge"
    using huge_pos by (simp add: distance_to_def get_state_def tall_car_def car_def)
  then show ?thesis by (simp add: calculate_score_def float_of_int_twice_huge)
qed

lemma far_car_state:
  "get_state far_car =
     \<lparr>s_elevator_id = 0, s_current_floor = huge, s_direction = UP, s_door_state = CLOSED,
      s_current_load = 0, s_capacity = 8, pending_stops_up = {huge + 1, huge + 2},
      pending_stops_down = {}\<rparr>"
  using huge_pos by (auto simp: far_car_def tall_car_def get_state_def step_defs)

lemma far_car_score:
  "calculate_score (get_state far_car) 0 UP = Inr PosInf"
proof -
  have d: "distance_to (get_state far_car) 0 = huge"
    using huge_pos by (simp add: distance_to_def far_car_state)
  have n: "total_pending_stops (get_state far_car) = 2"
    by (simp add: total_pending_stops_def far_car_state)
  have i: "\<not> is_idle (get_state far_car)"
    by (simp add: is_idle_def far_car_state)
  have b: "fmul (Finite 2) (Finite (5404319552844595 / 18014398509481984))
      = Finite (5404319552844595 / 9007199254740992)"
    unfolding fmul.simps
    by (rule rnd_cert [where k = "- 1" and n = 5404319552844595]) (simp_all add: pow2_def)
  have p: "fadd PosInf (Finite q) = PosInf" for q
    by simp
  have f: "s_direction (get_state far_car) = UP" "s_current_floor (get_state far_car) = huge"
      "s_current_load (get_state far_car) = 0" "s_capacity (get_state far_car) = 8"
    by (simp_all add: far_car_state)
  show ?thesis
    using huge_pos
    by (simp add: calculate_score_def d n i f lit_values float_of_int_small float_of_int_huge
        fmul_huge_2 b p capacity_8_threshold del: fmul.simps fadd.simps)
qed

text \<open>Idle cars without stops: the score is the distance.\<close>

lemma idle_car_score:
  assumes "0 \<le> d" "d < 2 ^ 53" "\<bar>start - p\<bar> = d"
  shows "calculate_score (get_state (car eid cap start)) p rd = Inr (Finite (of_int d))"
proof -
  have n: "fmul (Finite 0) (Finite (1 / 2)) = Finite 0"
    by (simp add: rnd_0)
  have "rnd (of_int d) = Finite (of_int d)"
    using assms(1,2) by (intro rnd_of_int_small) simp
  then have a: "fadd (Finite (of_int d)) (Finite 0) = Finite (of_int d)"
    by simp
  have f: "float_of_int d = Inr (Finite (of_int d))"
    using assms(1,2) by (intro float_of_int_small) simp
  show ?thesis
    using assms(3)
    by (simp add: score_defs get_state_def car_def lit_values float_of_int_small f n a
        del: fmul.simps fadd.simps)
qed

lemma three_idle_cars:
  "look_select_elevator (req 4 6 10 1) [car 0 8 0, car 1 8 5, car 2 8 10]
     = Inr (Some (car 1 8 5))"
proof -
  have a: "can_accept_request (car 0 8 0) (req 4 6 10 1)"
      "can_accept_request (car 1 8 5) (req 4 6 10 1)"
      "can_accept_request (car 2 8 10) (req 4 6 10 1)"
    by (simp_all add: can_accept_request_def car_def req_def)
  have s: "calculate_score (get_state (car 0 8 0)) 6 UP = Inr (Finite 6)"
      "calculate_score (get_state (car 1 8 5)) 6 UP = Inr (Finite 1)"
      "calculate_score (get_state (car 2 8 10)) 6 UP = Inr (Finite 4)"
    using idle_car_score [of 6 0 6 0 8 UP] idle_car_score [of 1 5 6 1 8 UP]
      idle_car_score [of 4 10 6 2 8 UP]
    by simp_all
  have r: "pickup_floor (req 4 6 10 1) = 6" "request_direction (req 4 6 10 1) = UP"
    by (simp_all add: req_def request_direction_def)
  show ?thesis
    by (simp add: look_select_elevator_def get_compatible_elevators_def a r s Let_def)
qed

text \<open>A reachable car whose direction is idle has no pending stops.\<close>

lemma idle_has_no_stops:
  "reachable e \<Longrightarrow> direction e = IDLE \<Longrightarrow> up_stops e = {} \<and> down_stops e = {}"
proof (induction rule: reachable.induct)
  case (construct eid lo hi cap start e)
  then show ?case by (auto simp: new_elevator_def split: if_splits)
next
  case (request e p d uid n r)
  then show ?case
    by (auto simp: add_request_def Let_def request_direction_def split: if_splits)
next
  case (tick e)
  show ?case
  proof (cases "direction e = IDLE")
    case True
    with tick show ?thesis by (simp add: step_def)
  next
    case False
    with tick.prems have "direction (update_direction (advance e)) = IDLE"
      by (simp add: step_def)
    then have "up_stops (advance e) = {} \<and> down_stops (advance e) = {}"
      using False update_direction_UP [of "advance e"] update_direction_DOWN [of "advance e"]
      by (cases "direction e") (auto split: if_splits)
    with False show ?thesis by (simp add: step_def)
  qed
next
  case (iterate e m)
  then show ?case by simp
qed

lemma reachable_snapshot:
  "reachable e \<Longrightarrow> s_direction (get_state e) = IDLE \<longrightarrow> is_idle (get_state e)"
  using idle_has_no_stops [of e] by (simp add: get_state_def is_idle_def)

lemma tie_cars_reachable: "reachable tie_car0" "reachable tie_car1"
proof -
  have "reachable (car 0 8 0)"
    by (rule reachable.construct [of 0 0 10 8 0]) (simp add: new_elevator_car)
  then have "reachable (snd (add_request (car 0 8 0) (req 2 0 9 1)))"
    by (rule reachable.request [of _ 0 9 2 1]) (simp add: new_request_req)
  then show "reachable tie_car0"
    unfolding tie_car0_def by (rule reachable.tick)
  have "reachable (car 1 8 4)"
    by (rule reachable.construct [of 1 0 10 8 4]) (simp add: new_elevator_car)
  then have "reachable (snd (add_request (car 1 8 4) (req 3 5 6 1)))"
    by (rule reachable.request [of _ 5 6 3 1]) (simp add: new_request_req)
  then have "reachable (snd (add_request (snd (add_request (car 1 8 4) (req 3 5 6 1)))
      (req 4 7 8 1)))"
    by (rule reachable.request [of _ 7 8 4 1]) (simp add: new_request_req)
  then show "reachable tie_car1"
    unfolding tie_car1_def by (rule reachable.request [of _ 9 10 5 1]) (simp add: new_request_req)
qed

lemma tie_request: "pickup_floor (req 6 4 6 1) = 4" "request_direction (req 6 4 6 1) = UP"
  by (simp_all add: req_def request_direction_def)

lemma tie_compatible:
  "get_compatible_elevators (req 6 4 6 1) [tie_car0, tie_car1] = [tie_car0, tie_car1]"
  by (auto simp: get_compatible_elevators_def tie_car0_def tie_car1_def step_defs)

lemma tie_select:
  "look_select_elevator (req 6 4 6 1) [tie_car0, tie_car1] = Inr (Some tie_car1)"
  by (simp add: look_select_elevator_def tie_compatible tie_request tie_car0_score
      tie_car1_score)

lemma tie_cars_differ: "tie_car1 \<noteq> tie_car0"
proof
  assume "tie_car1 = tie_car0"
  then have "s_elevator_id (get_state tie_car1) = s_elevator_id (get_state tie_car0)" by simp
  then show False unfolding tie_car0_state tie_car1_state by simp
qed

lemma tall_compatible:
  "get_compatible_elevators (req 2 (2 * huge) 0 1) [tall_car 0] = [tall_car 0]"
  using huge_pos
  by (simp add: get_compatible_elevators_def can_accept_request_def tall_car_def car_def req_def)

lemma tall_score: "score_of (req 2 (2 * huge) 0 1) (tall_car 0) = Inl OverflowError"
proof -
  have "request_direction (req 2 (2 * huge) 0 1) = DOWN"
    using huge_pos by (simp add: request_direction_def req_def)
  then show ?thesis by (simp add: score_of_def tall_car_score) (simp add: req_def tall_car_score)
qed

lemma far_compatible: "get_compatible_elevators (req 3 0 1 1) [far_car] = [far_car]"
  using huge_pos
  by (simp add: get_compatible_elevators_def far_car_def tall_car_def step_defs)

lemma far_score: "score_of (req 3 0 1 1) far_car = Inr PosInf"
  by (simp add: score_of_def req_def request_direction_def far_car_score)

text \<open>
  C5, as amended. The strategy works in float arithmetic: every conversion of an
  integer, every product and every sum is rounded to the nearest binary64 number, ties
  to the even mantissa, and the constants are the floats nearest to 0.5, 1.5, 2.0, 0.3
  and 0.8. For a snapshot in which an idle direction comes with empty stop sets (every
  reachable car is such), the score the code computes is the specification's cost read
  in that arithmetic: the distance to the pickup floor plus 0.5 per pending stop for an
  idle car; for a moving car the distance times 0.5, 1.5 or 2.0, plus 0.3 per pending
  stop, the total times 1.5 when the load is at least 0.8 times the capacity; and
  \<open>OverflowError\<close> is raised when an integer is too large for a float. The strategy
  raises \<open>OverflowError\<close> when the score of some compatible car raises. It returns none
  when every compatible car has the score infinity, in particular when no car is
  compatible. Otherwise it returns the compatible car at the first index of lowest
  computed score. With idle cars at floors 0, 5 and 10 and a request picked up at
  floor 6 it selects the car at floor 5.
\<close>

theorem look_score_selection:
  "((s_direction s = IDLE \<longrightarrow> is_idle s) \<longrightarrow> calculate_score s p rd = spec_cost s p rd)
   \<and> ((\<exists>e \<in> set (get_compatible_elevators r es). isl (score_of r e)) \<longrightarrow>
        look_select_elevator r es = Inl OverflowError)
   \<and> ((\<forall>e \<in> set (get_compatible_elevators r1 es1). score_of r1 e = Inr PosInf) \<longrightarrow>
        look_select_elevator r1 es1 = Inr None)
   \<and> ((\<forall>e \<in> set (get_compatible_elevators r2 es2). \<exists>c. score_of r2 e = Inr c) \<and>
      (\<exists>e \<in> set (get_compatible_elevators r2 es2). score_of r2 e \<noteq> Inr PosInf) \<longrightarrow>
        (\<exists>i. first_lowest (cost_of r2) (get_compatible_elevators r2 es2) i \<and>
             look_select_elevator r2 es2 = Inr (Some (get_compatible_elevators r2 es2 ! i))))
   \<and> look_select_elevator (req 4 6 10 1) [car 0 8 0, car 1 8 5, car 2 8 10]
        = Inr (Some (car 1 8 5))"
proof (intro conjI impI)
  assume "s_direction s = IDLE \<longrightarrow> is_idle s"
  then show "calculate_score s p rd = spec_cost s p rd" by (rule calculate_score_spec)
next
  assume "\<exists>e \<in> set (get_compatible_elevators r es). isl (score_of r e)"
  then have "look_loop (pickup_floor r) (request_direction r) (get_compatible_elevators r es)
      (None, PosInf) = Inl OverflowError"
    by (rule look_loop_error)
  moreover have "get_compatible_elevators r es \<noteq> []"
    using \<open>\<exists>e \<in> set (get_compatible_elevators r es). isl (score_of r e)\<close> by auto
  ultimately show "look_select_elevator r es = Inl OverflowError"
    by (simp add: look_select_elevator_def Let_def)
next
  assume "\<forall>e \<in> set (get_compatible_elevators r1 es1). score_of r1 e = Inr PosInf"
  then have "look_loop (pickup_floor r1) (request_direction r1)
      (get_compatible_elevators r1 es1) (None, PosInf) = Inr (None, PosInf)"
    by (rule look_loop_all_inf)
  then show "look_select_elevator r1 es1 = Inr None"
    by (simp add: look_select_elevator_def Let_def)
next
  let ?c = "get_compatible_elevators r2 es2"
  assume a: "(\<forall>e \<in> set ?c. \<exists>c. score_of r2 e = Inr c) \<and>
      (\<exists>e \<in> set ?c. score_of r2 e \<noteq> Inr PosInf)"
  then have ne: "?c \<noteq> []" by auto
  from look_loop_start [of ?c r2] a obtain i
    where m: "first_minimum (\<lambda>e. rank (cost_of r2 e)) ?c i"
    and l: "look_loop (pickup_floor r2) (request_direction r2) ?c (None, PosInf) =
        Inr (Some (?c ! i), cost_of r2 (?c ! i))"
    by blast
  have "first_lowest (cost_of r2) ?c i"
    using a m by (intro first_minimum_lowest) simp_all
  moreover have "look_select_elevator r2 es2 = Inr (Some (?c ! i))"
    using l ne by (simp add: look_select_elevator_def Let_def)
  ultimately show "\<exists>i. first_lowest (cost_of r2) ?c i \<and>
      look_select_elevator r2 es2 = Inr (Some (?c ! i))"
    by blast
next
  show "look_select_elevator (req 4 6 10 1) [car 0 8 0, car 1 8 5, car 2 8 10]
      = Inr (Some (car 1 8 5))"
    by (rule three_idle_cars)
qed

theorem look_score_selection_witness:
  "s_direction (get_state tie_car0) = UP
   \<and> calculate_score (get_state tie_car0) 4 UP
       = Inr (Finite (8106479329266893 / 4503599627370496))
   \<and> spec_cost (get_state tie_car0) 4 UP
       = Inr (Finite (8106479329266893 / 4503599627370496))
   \<and> get_compatible_elevators (req 2 (2 * huge) 0 1) [tall_car 0] = [tall_car 0]
   \<and> score_of (req 2 (2 * huge) 0 1) (tall_car 0) = Inl OverflowError
   \<and> look_select_elevator (req 2 (2 * huge) 0 1) [tall_car 0] = Inl OverflowError
   \<and> get_compatible_elevators (req 3 0 1 1) [far_car] = [far_car]
   \<and> score_of (req 3 0 1 1) far_car = Inr PosInf
   \<and> look_select_elevator (req 3 0 1 1) [far_car] = Inr None
   \<and> get_compatible_elevators (req 6 4 6 1) [tie_car0, tie_car1] = [tie_car0, tie_car1]
   \<and> score_of (req 6 4 6 1) tie_car0 = Inr (Finite (8106479329266893 / 4503599627370496))
   \<and> score_of (req 6 4 6 1) tie_car1 = Inr (Finite (2026619832316723 / 1125899906842624))
   \<and> look_select_elevator (req 6 4 6 1) [tie_car0, tie_car1] = Inr (Some tie_car1)"
proof -
  let ?s = "get_state tie_car0"
  let ?r = "req 2 (2 * huge) 0 1"
  let ?r1 = "req 3 0 1 1"
  let ?r2 = "req 6 4 6 1"
  note inst = look_score_selection [of ?s 4 UP ?r "[tall_car 0]" ?r1 "[far_car]"
      ?r2 "[tie_car0, tie_car1]"]
  have d: "s_direction ?s = UP" by (simp add: tie_car0_state)
  from inst reachable_snapshot [OF tie_cars_reachable(1)]
  have "calculate_score ?s 4 UP = spec_cost ?s 4 UP" by blast
  then have sp: "spec_cost ?s 4 UP = Inr (Finite (8106479329266893 / 4503599627370496))"
    by (simp add: tie_car0_score)
  from inst have "look_select_elevator ?r [tall_car 0] = Inl OverflowError"
    by (simp add: tall_compatible tall_score)
  note over = this
  from inst have none: "look_select_elevator ?r1 [far_car] = Inr None"
    by (simp add: far_compatible far_score)
  have s0: "score_of ?r2 tie_car0 = Inr (Finite (8106479329266893 / 4503599627370496))"
    and s1: "score_of ?r2 tie_car1 = Inr (Finite (2026619832316723 / 1125899906842624))"
    by (simp_all add: score_of_def tie_request tie_car0_score tie_car1_score)
  from inst obtain i where low: "first_lowest (cost_of ?r2) [tie_car0, tie_car1] i"
    and sel: "look_select_elevator ?r2 [tie_car0, tie_car1]
        = Inr (Some ([tie_car0, tie_car1] ! i))"
    unfolding tie_compatible using s0 s1 by auto
  have c: "cost_of ?r2 tie_car0 = Finite (8106479329266893 / 4503599627370496)"
      "cost_of ?r2 tie_car1 = Finite (2026619832316723 / 1125899906842624)"
    by (simp_all add: cost_of_def s0 s1)
  have "i < 2" using low by (simp add: first_lowest_def)
  moreover have "i \<noteq> 0"
  proof
    assume "i = 0"
    with low have "\<not> fless (cost_of ?r2 ([tie_car0, tie_car1] ! 1))
        (cost_of ?r2 ([tie_car0, tie_car1] ! 0))"
      unfolding first_lowest_def by (metis length_Cons list.size(3) lessI One_nat_def)
    then show False by (simp add: c)
  qed
  ultimately have "i = 1" by simp
  with sel have tie: "look_select_elevator ?r2 [tie_car0, tie_car1] = Inr (Some tie_car1)"
    by simp
  from d tie_car0_score sp tall_compatible tall_score over far_compatible far_score none
    tie_compatible s0 s1 tie
  show ?thesis by blast
qed

lemma far_car_reachable: "reachable far_car"
proof -
  have "new_elevator 0 0 (2 * huge) 8 huge = Inr (tall_car huge)"
    using huge_pos by (simp add: new_elevator_def tall_car_def car_def)
  then have "reachable (tall_car huge)" by (rule reachable.construct)
  then show ?thesis
    unfolding far_car_def
    by (rule reachable.request [of _ "huge + 1" "huge + 2" 2 1]) (simp add: new_request_req)
qed

lemma far_select: "look_select_elevator (req 3 0 1 1) [far_car] = Inr None"
proof -
  have "pickup_floor (req 3 0 1 1) = 0" "request_direction (req 3 0 1 1) = UP"
    by (simp_all add: req_def request_direction_def)
  then show ?thesis
    by (simp add: look_select_elevator_def far_compatible far_car_score)
qed

text \<open>
  C5 as stated fails in two ways. With the costs being the numbers that the formula
  gives, it fails for a tie that rounding breaks: both cars are reachable and accept the
  request from floor 4 to floor 6; the first car of the fleet is at floor 1 going up
  with one stop, the second at floor 4 going up with six stops; both costs are 9/5,
  namely \<open>3 * 0.5 + 1 * 0.3\<close> and \<open>0 * 0.5 + 6 * 0.3\<close>, so the first car should be
  selected; the code computes the floats 1.8 and 1.7999999999999998 and selects the
  second car. And a car whose computed cost is infinite is never selected: the
  reachable car at floor \<open>2 ^ 1023\<close> going up is the only car of its fleet and accepts
  the request from floor 0 to floor 1, its distance times \<open>2.0\<close> is the float infinity,
  and the code returns no car.
\<close>

theorem look_cost_counterexample:
  "reachable tie_car0 \<and> reachable tie_car1
   \<and> get_compatible_elevators (req 6 4 6 1) [tie_car0, tie_car1] = [tie_car0, tie_car1]
   \<and> exact_cost (get_state tie_car0) (pickup_floor (req 6 4 6 1))
        (request_direction (req 6 4 6 1)) = 9 / 5
   \<and> exact_cost (get_state tie_car1) (pickup_floor (req 6 4 6 1))
        (request_direction (req 6 4 6 1)) = 9 / 5
   \<and> look_select_elevator (req 6 4 6 1) [tie_car0, tie_car1] = Inr (Some tie_car1)
   \<and> tie_car1 \<noteq> tie_car0
   \<and> reachable far_car
   \<and> get_compatible_elevators (req 3 0 1 1) [far_car] = [far_car]
   \<and> look_select_elevator (req 3 0 1 1) [far_car] = Inr None"
  using tie_cars_reachable tie_compatible tie_exact tie_select tie_cars_differ
    far_car_reachable far_compatible far_select
  unfolding tie_request by blast

section \<open>Requests that share an id\<close>

lemma shared_id_eq:
  "shared_id = \<lparr>elevator_id = 0, min_floor = 0, max_floor = 10, capacity = 8,
      current_floor = 0, direction = UP, door_state = CLOSED,
      current_load = 0, up_stops = {2, 3, 5}, down_stops = {},
      active_requests = [2 \<mapsto> [req 7 2 5 1], 5 \<mapsto> [req 7 2 5 1], 3 \<mapsto> [req 7 3 5 1]]\<rparr>"
  by (auto simp: shared_id_def step_defs)

lemma shared_id_step1:
  "step shared_id = \<lparr>elevator_id = 0, min_floor = 0, max_floor = 10, capacity = 8,
      current_floor = 1, direction = UP, door_state = CLOSED,
      current_load = 0, up_stops = {2, 3, 5}, down_stops = {},
      active_requests = [2 \<mapsto> [req 7 2 5 1], 5 \<mapsto> [req 7 2 5 1], 3 \<mapsto> [req 7 3 5 1]]\<rparr>"
  unfolding shared_id_eq by (auto simp: step_defs)

lemma shared_id_step2:
  "step (step shared_id) = \<lparr>elevator_id = 0, min_floor = 0, max_floor = 10, capacity = 8,
      current_floor = 2, direction = UP, door_state = CLOSED,
      current_load = 1, up_stops = {3, 5}, down_stops = {},
      active_requests = [2 \<mapsto> [req 7 2 5 1], 5 \<mapsto> [req 7 2 5 1], 3 \<mapsto> [req 7 3 5 1]]\<rparr>"
  unfolding shared_id_step1 by (auto simp: step_defs)

lemma shared_id_step3:
  "step (step (step shared_id)) = \<lparr>elevator_id = 0, min_floor = 0, max_floor = 10, capacity = 8,
      current_floor = 3, direction = UP, door_state = CLOSED,
      current_load = 2, up_stops = {5}, down_stops = {},
      active_requests = [2 \<mapsto> [req 7 2 5 1], 5 \<mapsto> [req 7 2 5 1], 3 \<mapsto> [req 7 3 5 1]]\<rparr>"
  unfolding shared_id_step2 by (auto simp: step_defs)

lemma shared_id_step4:
  "step (step (step (step shared_id))) = \<lparr>elevator_id = 0, min_floor = 0, max_floor = 10, capacity = 8,
      current_floor = 4, direction = UP, door_state = CLOSED,
      current_load = 2, up_stops = {5}, down_stops = {},
      active_requests = [2 \<mapsto> [req 7 2 5 1], 5 \<mapsto> [req 7 2 5 1], 3 \<mapsto> [req 7 3 5 1]]\<rparr>"
  unfolding shared_id_step3 by (auto simp: step_defs)

lemma shared_id_step5:
  "step (step (step (step (step shared_id)))) = \<lparr>elevator_id = 0, min_floor = 0, max_floor = 10, capacity = 8,
      current_floor = 5, direction = IDLE, door_state = CLOSED,
      current_load = 1, up_stops = {}, down_stops = {},
      active_requests = [2 \<mapsto> [], 3 \<mapsto> [req 7 3 5 1]]\<rparr>"
  unfolding shared_id_step4 by (auto simp: step_defs)

text \<open>
  C4 as stated fails when two different requests share an id, since Python's sets
  compare requests by id. The car starts at floor 0 and accepts a request from floor 2
  to floor 5 and then a request from floor 3 to floor 5 with the same id: the set under
  floor 5 keeps the first request only. After five steps the car has arrived at floor 5
  and has completed the first request. The second request is still stored under
  floor 3, its passenger is in the car, and both stop sets are empty.
\<close>

theorem shared_id_counterexample:
  "reachable (step (step (step (step (step shared_id)))))
   \<and> stored (step (step (step (step (step shared_id))))) (req 7 3 5 1)
   \<and> pickup_floor (req 7 3 5 1)
        \<notin> stops_of (request_direction (req 7 3 5 1)) (step (step (step (step (step shared_id)))))
   \<and> destination_floor (req 7 3 5 1)
        \<notin> stops_of (request_direction (req 7 3 5 1)) (step (step (step (step (step shared_id)))))"
proof -
  have "reachable (car 0 8 0)"
    by (rule reachable.construct [of 0 0 10 8 0]) (simp add: new_elevator_car)
  then have "reachable (snd (add_request (car 0 8 0) (req 7 2 5 1)))"
    by (rule reachable.request [of _ 2 5 7 1]) (simp add: new_request_req)
  then have "reachable shared_id"
    unfolding shared_id_def by (rule reachable.request [of _ 3 5 7 1]) (simp add: new_request_req)
  then have r: "reachable (step (step (step (step (step shared_id)))))"
    by (intro reachable.tick)
  have s: "stored (step (step (step (step (step shared_id))))) (req 7 3 5 1)"
    unfolding shared_id_step5 stored_def
    by (intro exI [of _ 3] exI [of _ "[req 7 3 5 1]"]) simp
  have e: "stops_of d (step (step (step (step (step shared_id))))) = {}" for d
    unfolding shared_id_step5 by (simp add: stops_of_def)
  from r s show ?thesis unfolding e by simp
qed

end
